theory Spec2Isabelle
  imports Complex_Main "HOL-Library.Multiset"
begin

section \<open>Caption segments and the object store\<close>

text \<open>
  \<^verbatim>\<open>types.ts\<close>: a \<^verbatim>\<open>SubtitleSegment\<close> has two numbers and two strings. JavaScript
  numbers are modelled as exact reals (no NaN, no infinities, no rounding).
\<close>

record SubtitleSegment =
  startTime :: real
  endTime :: real
  english :: string
  chinese :: string

text \<open>
  Segments are JavaScript objects: an array holds references, and a write to a field is
  seen through every reference to the object. A reference is an address into a store.
\<close>

type_synonym ref = nat
type_synonym heap = "ref \<Rightarrow> SubtitleSegment"

definition readback :: "heap \<Rightarrow> ref list \<Rightarrow> SubtitleSegment list" where
  "readback h subs = map h subs"

section \<open>Normalization: \<^verbatim>\<open>postProcessSubtitles\<close> (services/geminiService.ts)\<close>

text \<open>
  Step 1, \<^verbatim>\<open>[...subtitles].sort((a, b) => a.startTime - b.startTime)\<close>: a fresh array of
  the same references, stably sorted on \<^verbatim>\<open>startTime\<close>.
\<close>

definition sortByStart :: "heap \<Rightarrow> ref list \<Rightarrow> ref list" where
  "sortByStart h subs = sort_key (\<lambda>a. startTime (h a)) subs"

text \<open>
  Step 2, the first loop: \<^verbatim>\<open>if (segment.endTime <= segment.startTime)
  segment.endTime = segment.startTime + 1.5\<close>, written through the reference.
\<close>

definition fixEnd :: "heap \<Rightarrow> ref \<Rightarrow> heap" where
  "fixEnd h a =
     (if endTime (h a) \<le> startTime (h a)
      then h(a := (h a)\<lparr>endTime := startTime (h a) + 1.5\<rparr>)
      else h)"

fun clampLoop :: "heap \<Rightarrow> ref list \<Rightarrow> heap" where
  "clampLoop h [] = h"
| "clampLoop h (a # rest) = clampLoop (fixEnd h a) rest"

text \<open>
  Step 3, the second loop: for every index with a successor, \<^verbatim>\<open>if (current.endTime >
  next.startTime) current.endTime = next.startTime\<close> (both branches of the inner
  \<^verbatim>\<open>if\<close> of the source perform this same assignment).
\<close>

definition trimOne :: "heap \<Rightarrow> ref \<Rightarrow> ref \<Rightarrow> heap" where
  "trimOne h current next =
     (if endTime (h current) > startTime (h next)
      then h(current := (h current)\<lparr>endTime := startTime (h next)\<rparr>)
      else h)"

fun trimLoop :: "heap \<Rightarrow> ref list \<Rightarrow> heap" where
  "trimLoop h (current # next # rest) = trimLoop (trimOne h current next) (next # rest)"
| "trimLoop h [current] = h"
| "trimLoop h [] = h"

definition postProcessSubtitles :: "heap \<Rightarrow> ref list \<Rightarrow> ref list \<times> heap" where
  "postProcessSubtitles h subtitles =
     (if subtitles = [] then ([], h)
      else
        let sorted = sortByStart h subtitles;
            h1 = clampLoop h sorted;
            h2 = trimLoop h1 sorted
        in (sorted, h2))"

subsection \<open>The normalized invariant\<close>

fun nonOverlapping :: "SubtitleSegment list \<Rightarrow> bool" where
  "nonOverlapping (current # next # rest) =
     (endTime current \<le> startTime next \<and> nonOverlapping (next # rest))"
| "nonOverlapping [current] = True"
| "nonOverlapping [] = True"

definition positiveDurations :: "SubtitleSegment list \<Rightarrow> bool" where
  "positiveDurations ss = list_all (\<lambda>s. startTime s < endTime s) ss"

definition normalized :: "SubtitleSegment list \<Rightarrow> bool" where
  "normalized ss =
     (sorted (map startTime ss) \<and> nonOverlapping ss \<and> positiveDurations ss)"

subsection \<open>Example stores\<close>

definition seg :: "real \<Rightarrow> real \<Rightarrow> string \<Rightarrow> string \<Rightarrow> SubtitleSegment" where
  "seg s e primary secondary =
     \<lparr>startTime = s, endTime = e, english = primary, chinese = secondary\<rparr>"

definition emptySeg :: SubtitleSegment where
  "emptySeg = seg 0 0 [] []"

text \<open>The store holding the segments of a list at the addresses 0, 1, ...\<close>

definition storeOf :: "SubtitleSegment list \<Rightarrow> heap" where
  "storeOf ss = (\<lambda>a. if a < length ss then ss ! a else emptySeg)"

text \<open>The scenario of the specification: the first segment runs into the second.\<close>

definition overlapStore :: heap where
  "overlapStore = storeOf [seg 0 2 ''A'' ''a'', seg 1.5 3 ''B'' ''b'']"

definition trimmedStore :: heap where
  "trimmedStore = storeOf [seg 0 1.5 ''A'' ''a'', seg 1.5 3 ''B'' ''b'']"

text \<open>A segment of zero duration.\<close>

definition zeroStore :: heap where
  "zeroStore = storeOf [seg 5 5 ''X'' ''X'']"

text \<open>Two segments that start at the same time.\<close>

definition tieStore :: heap where
  "tieStore = storeOf [seg 0 2 ''A'' ''a'', seg 0 3 ''B'' ''b'']"

section \<open>The active-segment lookup of the \<^verbatim>\<open>Player\<close> component (components/SubtitleOverlay.tsx)\<close>

text \<open>
  \<^verbatim>\<open>updateUI\<close> reads \<^verbatim>\<open>subtitles[i].startTime\<close>. An index outside the array yields
  \<^verbatim>\<open>undefined\<close>, and reading a field of it throws a \<^verbatim>\<open>TypeError\<close>: every indexed read
  of the model goes through \<open>element\<close>, which fails in that case.
\<close>

datatype error = TypeError

definition element :: "'a list \<Rightarrow> nat \<Rightarrow> error + 'a" where
  "element xs i = (if i < length xs then Inr (xs ! i) else Inl TypeError)"

text \<open>\<^verbatim>\<open>time >= s.startTime && time <= s.endTime\<close>\<close>

definition containsTime :: "heap \<Rightarrow> real \<Rightarrow> ref \<Rightarrow> bool" where
  "containsTime h time s = (time \<ge> startTime (h s) \<and> time \<le> endTime (h s))"

text \<open>
  The mutable state of the \<^verbatim>\<open>Player\<close> component that the lookup touches:
  \<^verbatim>\<open>localVideoRef.current\<close> (absent, or a video element with its \<^verbatim>\<open>currentTime\<close>),
  the cursor \<^verbatim>\<open>activeSubIndexRef.current\<close>, the cached reference
  \<^verbatim>\<open>activeSubRef.current\<close> and the React state \<^verbatim>\<open>activeSubtitle\<close>.
\<close>

record PlayerState =
  video :: "real option"
  activeSubIndexRef :: int
  activeSubRef :: "ref option"
  activeSubtitle :: "ref option"

text \<open>
  The forward loop, \<^verbatim>\<open>for (let i = startIndex; i < subtitles.length; i++)\<close>: it stops
  at the first segment containing the time, and gives up at the first segment that starts
  after it. The result is the pair \<^verbatim>\<open>(foundSub, foundIndex)\<close>, initially
  \<^verbatim>\<open>(null, -1)\<close>.
\<close>

function forwardScan :: "heap \<Rightarrow> ref list \<Rightarrow> real \<Rightarrow> nat \<Rightarrow> error + (ref option \<times> int)" where
  "forwardScan h subtitles time i =
     (if i < length subtitles then
        (case element subtitles i of
           Inl e \<Rightarrow> Inl e
         | Inr s \<Rightarrow>
             if containsTime h time s then Inr (Some s, int i)
             else if startTime (h s) > time then Inr (None, -1)
             else forwardScan h subtitles time (Suc i))
      else Inr (None, -1))"
  by pat_completeness auto
termination
  by (relation "measure (\<lambda>(h, subtitles, time, i). length subtitles - i)") auto

declare forwardScan.simps [simp del]

text \<open>
  The fallback loop, \<^verbatim>\<open>for (let i = 0; i < scanEnd; i++)\<close>, without the early exit.
\<close>

function backwardScan :: "heap \<Rightarrow> ref list \<Rightarrow> real \<Rightarrow> nat \<Rightarrow> nat \<Rightarrow> error + (ref option \<times> int)" where
  "backwardScan h subtitles time scanEnd i =
     (if i < scanEnd then
        (case element subtitles i of
           Inl e \<Rightarrow> Inl e
         | Inr s \<Rightarrow>
             if containsTime h time s then Inr (Some s, int i)
             else backwardScan h subtitles time scanEnd (Suc i))
      else Inr (None, -1))"
  by pat_completeness auto
termination
  by (relation "measure (\<lambda>(h, subtitles, time, scanEnd, i). scanEnd - i)") auto

declare backwardScan.simps [simp del]

text \<open>\<^verbatim>\<open>const startIndex = Math.max(0, activeSubIndexRef.current)\<close>\<close>

definition startIndex :: "PlayerState \<Rightarrow> nat" where
  "startIndex st = nat (max 0 (activeSubIndexRef st))"

text \<open>
  \<^verbatim>\<open>currentCached && time >= currentCached.startTime && time <= currentCached.endTime\<close>
\<close>

definition cacheValid :: "heap \<Rightarrow> real \<Rightarrow> PlayerState \<Rightarrow> bool" where
  "cacheValid h time st =
     (case activeSubRef st of None \<Rightarrow> False | Some currentCached \<Rightarrow> containsTime h time currentCached)"

text \<open>
  The body of \<^verbatim>\<open>if (subtitles.length > 0)\<close> after the reset of a stale index: the
  cached segment if it still contains the time, else the forward scan from the cursor, else
  (nothing found and \<^verbatim>\<open>startIndex > 0\<close>) the scan of the indices below
  \<^verbatim>\<open>Math.min(startIndex, subtitles.length)\<close>.
\<close>

definition search :: "heap \<Rightarrow> ref list \<Rightarrow> real \<Rightarrow> PlayerState \<Rightarrow> error + (ref option \<times> int)" where
  "search h subtitles time st =
     (if cacheValid h time st then Inr (activeSubRef st, activeSubIndexRef st)
      else
        (case forwardScan h subtitles time (startIndex st) of
           Inl e \<Rightarrow> Inl e
         | Inr (foundSub, foundIndex) \<Rightarrow>
             if foundSub = None \<and> startIndex st > 0
             then backwardScan h subtitles time (min (startIndex st) (length subtitles)) 0
             else Inr (foundSub, foundIndex)))"

text \<open>
  \<^verbatim>\<open>if (activeSubIndexRef.current >= subtitles.length) activeSubIndexRef.current = -1\<close>
\<close>

definition resetStale :: "ref list \<Rightarrow> PlayerState \<Rightarrow> PlayerState" where
  "resetStale subtitles st =
     (if activeSubIndexRef st \<ge> int (length subtitles) then st\<lparr>activeSubIndexRef := -1\<rparr> else st)"

text \<open>
  \<^verbatim>\<open>if (foundSub !== activeSubRef.current)\<close>: the three writes. The comparison is on
  references.
\<close>

definition commit :: "PlayerState \<Rightarrow> ref option \<times> int \<Rightarrow> PlayerState" where
  "commit st found =
     (if fst found \<noteq> activeSubRef st
      then st\<lparr>activeSubRef := fst found, activeSubIndexRef := snd found, activeSubtitle := fst found\<rparr>
      else st)"

text \<open>
  The subtitle part of \<^verbatim>\<open>updateUI\<close> (the throttled progress-bar update that follows
  it reads the same time and does not touch this state). Without a video element the
  function returns at once.
\<close>

definition updateUI :: "heap \<Rightarrow> ref list \<Rightarrow> PlayerState \<Rightarrow> error + PlayerState" where
  "updateUI h subtitles st =
     (case video st of
        None \<Rightarrow> Inr st
      | Some time \<Rightarrow>
          if length subtitles > 0 then
            (case search h subtitles time (resetStale subtitles st) of
               Inl e \<Rightarrow> Inl e
             | Inr found \<Rightarrow> Inr (commit (resetStale subtitles st) found))
          else Inr (commit st (None, -1)))"

text \<open>
  \<^verbatim>\<open>handleSeek\<close>: with a video element, set its \<^verbatim>\<open>currentTime\<close>, reset the index
  hint (\<^verbatim>\<open>activeSubIndexRef.current = -1\<close>; the cached reference is not written) and run
  \<^verbatim>\<open>updateUI\<close>, which reads the time just set.
\<close>

definition handleSeek :: "heap \<Rightarrow> ref list \<Rightarrow> real \<Rightarrow> PlayerState \<Rightarrow> error + PlayerState" where
  "handleSeek h subtitles time st =
     (case video st of
        None \<Rightarrow> Inr st
      | Some _ \<Rightarrow> updateUI h subtitles (st\<lparr>video := Some time, activeSubIndexRef := -1\<rparr>))"



text \<open>
  Playback: the animation-frame loop calls \<^verbatim>\<open>updateUI\<close> once per frame, each time
  with the clock of the video element at that frame. The lookup of a frame returns
  \<^verbatim>\<open>foundSub\<close>, which is the cached reference once the frame is done.
\<close>

fun playback :: "heap \<Rightarrow> ref list \<Rightarrow> PlayerState \<Rightarrow> real list \<Rightarrow> error + ref option list" where
  "playback h subtitles st [] = Inr []"
| "playback h subtitles st (time # later) =
     (case updateUI h subtitles (st\<lparr>video := Some time\<rparr>) of
        Inl e \<Rightarrow> Inl e
      | Inr st' \<Rightarrow>
          (case playback h subtitles st' later of
             Inl e \<Rightarrow> Inl e
           | Inr found \<Rightarrow> Inr (activeSubRef st' # found)))"

text \<open>
  The linear scan of the repository, used by the export's \<^verbatim>\<open>drawFrame\<close> (App.tsx):
  \<^verbatim>\<open>subtitles.find(s => time >= s.startTime && time <= s.endTime)\<close>, the first segment
  of the list that contains the time.
\<close>

definition referenceScan :: "heap \<Rightarrow> ref list \<Rightarrow> real \<Rightarrow> ref option" where
  "referenceScan h subtitles time = find (containsTime h time) subtitles"

text \<open>
  The invariant of playback: the cursor and the cache are both unset, or the cache is the
  segment at the cursor, which is the first one that contains the last queried time.
\<close>

definition tracking :: "heap \<Rightarrow> ref list \<Rightarrow> real \<Rightarrow> PlayerState \<Rightarrow> bool" where
  "tracking h subtitles time st =
     ((activeSubRef st = None \<and> activeSubIndexRef st = -1) \<or>
      (\<exists>i<length subtitles. activeSubIndexRef st = int i \<and> activeSubRef st = Some (subtitles ! i) \<and>
         containsTime h time (subtitles ! i) \<and> (\<forall>j<i. \<not> containsTime h time (subtitles ! j))))"

text \<open>Example states of the player.\<close>

definition mounted :: PlayerState where
  "mounted = \<lparr>video = Some 0, activeSubIndexRef = -1, activeSubRef = None, activeSubtitle = None\<rparr>"



section \<open>Target dimensions of a burned-video export (App.tsx)\<close>

text \<open>
  The preparing phase of \<^verbatim>\<open>handleExportBurned\<close> (App.tsx) computes the canvas size
  from \<^verbatim>\<open>videoWidth\<close> and \<^verbatim>\<open>videoHeight\<close> of the offline video element, two
  non-negative integers. Numbers are exact reals; \<^verbatim>\<open>Math.round\<close> rounds to the nearest
  integer, a tie towards plus infinity.
\<close>

definition MAX_WIDTH :: int where "MAX_WIDTH = 1920"
definition MAX_HEIGHT :: int where "MAX_HEIGHT = 1080"

definition jsRound :: "real \<Rightarrow> int" where
  "jsRound x = \<lfloor>x + 1 / 2\<rfloor>"

text \<open>
  The block \<^verbatim>\<open>if (targetWidth > MAX_WIDTH || targetHeight > MAX_HEIGHT)\<close>. A height of 0
  makes \<^verbatim>\<open>ratio\<close> infinite in JavaScript (the width is above the bound then), which
  takes the first branch and rounds \<^verbatim>\<open>MAX_WIDTH / Infinity\<close> to 0; this case is written
  out, as division by zero is 0 in HOL.
\<close>

definition scaleToFit :: "int \<Rightarrow> int \<Rightarrow> int \<times> int" where
  "scaleToFit targetWidth targetHeight =
     (if targetWidth > MAX_WIDTH \<or> targetHeight > MAX_HEIGHT then
        if targetHeight = 0 then (MAX_WIDTH, 0)
        else
          let ratio = real_of_int targetWidth / real_of_int targetHeight in
          if ratio > 1 then (MAX_WIDTH, jsRound (real_of_int MAX_WIDTH / ratio))
          else (jsRound (real_of_int MAX_HEIGHT * ratio), MAX_HEIGHT)
      else (targetWidth, targetHeight))"

text \<open>\<^verbatim>\<open>if (targetWidth % 2 !== 0) targetWidth--\<close>, and likewise for the height.\<close>

definition forceEven :: "int \<Rightarrow> int" where
  "forceEven n = (if n mod 2 \<noteq> 0 then n - 1 else n)"

definition targetDimensions :: "nat \<Rightarrow> nat \<Rightarrow> int \<times> int" where
  "targetDimensions videoWidth videoHeight =
     (let (targetWidth, targetHeight) = scaleToFit (int videoWidth) (int videoHeight)
      in (forceEven targetWidth, forceEven targetHeight))"

section \<open>Burned-video export and its cache (App.tsx)\<close>

datatype ExportFormat = mp4 | webm | mov | mkv | avi

datatype SubtitleViewMode = dual | en | cn | off

text \<open>
  The style of the captions. Its three numbers are whole numbers: the initial style is
  \<^verbatim>\<open>{enSize: 15, cnSize: 15, enColor: '#ffffff', cnColor: '#facc15',
  verticalPosition: 10}\<close>, and every later value of a number is
  \<^verbatim>\<open>parseInt(e.target.value)\<close> of a range input.
\<close>

record SubtitleStyle =
  enSize :: int
  cnSize :: int
  enColor :: string
  cnColor :: string
  verticalPosition :: int

text \<open>
  The object that \<^verbatim>\<open>handleExportBurned\<close> serializes into the cache key:
  \<^verbatim>\<open>JSON.stringify({videoUrl: videoData.url, subtitles, viewMode, subStyle,
  exportFormat})\<close>. The serializer is a built-in of the language: the functions of the
  export take it as a parameter \<open>stringify\<close>, into any type of keys, and
  \<open>JSON_stringify\<close> below gives the text it produces for this object.
\<close>

record ExportKey =
  keyVideoUrl :: string
  keySubtitles :: "SubtitleSegment list"
  keyViewMode :: SubtitleViewMode
  keySubStyle :: SubtitleStyle
  keyExportFormat :: ExportFormat

record Blob =
  content :: "nat list"
  mime :: string

text \<open>\<^verbatim>\<open>new Blob(chunks, { type: mimeType })\<close>\<close>

definition newBlob :: "Blob list \<Rightarrow> string \<Rightarrow> Blob" where
  "newBlob parts mimeType = \<lparr>content = concat (map content parts), mime = mimeType\<rparr>"

text \<open>The single slot \<^verbatim>\<open>cachedExportRef.current\<close>: absent, or one entry.\<close>

record 'k CachedExport =
  key :: 'k
  blob :: Blob
  fileName :: string

text \<open>
  The objects an export allocates. A \<^verbatim>\<open>MediaRecorder\<close> has its state and its handlers;
  the handlers installed by \<^verbatim>\<open>handleExportBurned\<close> are closures over the job's
  \<^verbatim>\<open>chunks\<close>, \<^verbatim>\<open>mimeType\<close>, \<^verbatim>\<open>currentExportKey\<close>, \<^verbatim>\<open>videoData.file\<close> and
  \<^verbatim>\<open>exportFormat\<close>, which the model keeps with the recorder. \<^verbatim>\<open>onstop\<close> and
  \<^verbatim>\<open>onerror\<close> say whether the handler is still installed.
\<close>

datatype RecordingState = inactive | recording | paused

record 'k Recorder =
  recState :: RecordingState
  recMimeType :: string
  chunks :: "Blob list"
  jobKey :: 'k
  jobFile :: "string option"
  jobFormat :: ExportFormat
  onstop :: bool
  onerror :: bool

record VideoElement =
  isPaused :: bool
  src :: "string option"
  inBody :: bool

record AudioContext =
  isClosed :: bool

text \<open>
  The state of the \<^verbatim>\<open>App\<close> component that export reads and writes: React state, the
  refs (a ref to an object is its index in the store of objects of that kind), the stores,
  the size of the export canvas, and the effects seen by the user (downloads triggered,
  alerts shown).
\<close>

record 'k App =
  videoDataUrl :: "string option"
  videoDataFile :: "string option"
  appSubtitles :: "SubtitleSegment list"
  viewMode :: SubtitleViewMode
  subStyle :: SubtitleStyle
  exportFormat :: ExportFormat
  isExporting :: bool
  exportProgress :: real
  exportTimeLeft :: "real option"
  exportResult :: "(bool \<times> string) option"
  isPreviewMode :: bool
  cachedExportRef :: "'k CachedExport option"
  mediaRecorderRef :: "nat option"
  offlineVideoRef :: "nat option"
  exportAudioCtxRef :: "nat option"
  canvasSize :: "int \<times> int"
  recorders :: "'k Recorder list"
  videoElements :: "VideoElement list"
  audioContexts :: "AudioContext list"
  downloads :: "(Blob \<times> string) list"
  alerts :: "string list"

text \<open>
  What the runtime answers during one export request: \<^verbatim>\<open>MediaRecorder.isTypeSupported\<close>,
  the size of the decoded video, whether the canvas gives a 2d context, and whether
  \<^verbatim>\<open>offlineVideo.play()\<close> resolves. The awaited steps of the request (metadata loaded,
  audio context resumed, seek to 0 done) complete without another handler running in
  between.
\<close>

record ExportEnv =
  isTypeSupported :: "string \<Rightarrow> bool"
  videoWidth :: nat
  videoHeight :: nat
  hasContext2d :: bool
  playResolves :: bool

text \<open>Writing through a ref: the object at the index is replaced; a dangling index writes nothing.\<close>

definition modifyAt :: "nat \<Rightarrow> ('a \<Rightarrow> 'a) \<Rightarrow> 'a list \<Rightarrow> 'a list" where
  "modifyAt i f xs = (if i < length xs then xs[i := f (xs ! i)] else xs)"

text \<open>
  \<^verbatim>\<open>pause(); removeAttribute('src'); load(); document.body.removeChild(...)\<close> on the
  offline video element, and \<^verbatim>\<open>close()\<close> on the audio context.
\<close>

definition releaseVideo :: "VideoElement \<Rightarrow> VideoElement" where
  "releaseVideo v = v\<lparr>isPaused := True, src := None, inBody := False\<rparr>"

definition closeAudio :: "AudioContext \<Rightarrow> AudioContext" where
  "closeAudio a = a\<lparr>isClosed := True\<rparr>"

text \<open>
  \<^verbatim>\<open>cleanup\<close>, the closure defined inside \<^verbatim>\<open>handleExportBurned\<close>: it releases the video
  element and the audio context that the refs hold when it runs, and resets
  \<^verbatim>\<open>isExporting\<close> and \<^verbatim>\<open>exportTimeLeft\<close>. It writes neither the refs nor the recorder.
\<close>

definition cleanup :: "'k App \<Rightarrow> 'k App" where
  "cleanup st =
     (let st1 = (case offlineVideoRef st of
                   None \<Rightarrow> st
                 | Some v \<Rightarrow> st\<lparr>videoElements := modifyAt v releaseVideo (videoElements st)\<rparr>);
          st2 = (case exportAudioCtxRef st1 of
                   None \<Rightarrow> st1
                 | Some a \<Rightarrow> st1\<lparr>audioContexts := modifyAt a closeAudio (audioContexts st1)\<rparr>)
      in st2\<lparr>isExporting := False, exportTimeLeft := None\<rparr>)"

text \<open>
  \<^verbatim>\<open>cancelExport\<close>: detach \<^verbatim>\<open>onstop\<close> and \<^verbatim>\<open>onerror\<close> from the recorder and stop it
  unless it is inactive; release the video element and null its ref; close the audio
  context and null its ref; reset \<^verbatim>\<open>isExporting\<close>, the progress and the time left.
\<close>

definition stopRecorder :: "'k Recorder \<Rightarrow> 'k Recorder" where
  "stopRecorder r = (if recState r \<noteq> inactive then r\<lparr>recState := inactive\<rparr> else r)"

definition detachAndStop :: "'k Recorder \<Rightarrow> 'k Recorder" where
  "detachAndStop r = stopRecorder (r\<lparr>onstop := False, onerror := False\<rparr>)"

definition cancelExport :: "'k App \<Rightarrow> 'k App" where
  "cancelExport st =
     (let st1 = (case mediaRecorderRef st of
                   None \<Rightarrow> st
                 | Some r \<Rightarrow> st\<lparr>recorders := modifyAt r detachAndStop (recorders st)\<rparr>);
          st2 = (case offlineVideoRef st1 of
                   None \<Rightarrow> st1
                 | Some v \<Rightarrow> st1\<lparr>videoElements := modifyAt v releaseVideo (videoElements st1),
                                 offlineVideoRef := None\<rparr>);
          st3 = (case exportAudioCtxRef st2 of
                   None \<Rightarrow> st2
                 | Some a \<Rightarrow> st2\<lparr>audioContexts := modifyAt a closeAudio (audioContexts st2),
                                 exportAudioCtxRef := None\<rparr>)
      in st3\<lparr>isExporting := False, exportProgress := 0, exportTimeLeft := None\<rparr>)"

text \<open>
  The suggested file name, \<^verbatim>\<open>(videoData.file?.name.replace(/\.[^/.]+$/, "") || 'video')
  + `_subs.${exportFormat}`\<close>: the name without its last extension (a dot followed by
  one or more characters other than a dot or a slash, at the end), or \<^verbatim>\<open>video\<close> when
  there is no file or nothing is left.
\<close>

definition stripExtension :: "string \<Rightarrow> string" where
  "stripExtension name =
     (let extension = takeWhile (\<lambda>c. c \<noteq> CHR ''.'' \<and> c \<noteq> CHR ''/'') (rev name);
          stem = drop (length extension) (rev name)
      in if extension \<noteq> [] \<and> stem \<noteq> [] \<and> hd stem = CHR ''.''
         then rev (tl stem) else name)"

fun formatName :: "ExportFormat \<Rightarrow> string" where
  "formatName mp4 = ''mp4''"
| "formatName webm = ''webm''"
| "formatName mov = ''mov''"
| "formatName mkv = ''mkv''"
| "formatName avi = ''avi''"

definition exportFileName :: "string option \<Rightarrow> ExportFormat \<Rightarrow> string" where
  "exportFileName file fmt =
     (let base = (case file of None \<Rightarrow> [] | Some name \<Rightarrow> stripExtension name)
      in (if base = [] then ''video'' else base) @ ''_subs.'' @ formatName fmt)"

text \<open>
  The handlers of the recorder at index \<open>r\<close>. \<^verbatim>\<open>ondataavailable\<close> keeps a chunk that
  is not empty. \<^verbatim>\<open>onstop\<close> assembles the chunks, overwrites the cache slot with the
  job's key, reports success, triggers the download and cleans up. \<^verbatim>\<open>onerror\<close> reports
  the failure and cleans up. (The user-facing messages, Chinese in the source, are given
  in English.)
\<close>

definition recorder_ondataavailable :: "nat \<Rightarrow> Blob \<Rightarrow> 'k App \<Rightarrow> 'k App" where
  "recorder_ondataavailable r chunk st =
     (if length (content chunk) > 0
      then st\<lparr>recorders := modifyAt r (\<lambda>rec. rec\<lparr>chunks := chunks rec @ [chunk]\<rparr>) (recorders st)\<rparr>
      else st)"

definition recorder_onstop :: "'k Recorder \<Rightarrow> 'k App \<Rightarrow> 'k App" where
  "recorder_onstop job st =
     (let made = newBlob (chunks job) (recMimeType job);
          name = exportFileName (jobFile job) (jobFormat job)
      in cleanup
           (st\<lparr>cachedExportRef := Some \<lparr>key = jobKey job, blob = made, fileName = name\<rparr>,
               exportResult := Some (True, ''export succeeded''),
               downloads := downloads st @ [(made, name)]\<rparr>))"

definition recorder_onerror :: "'k App \<Rightarrow> 'k App" where
  "recorder_onerror st = cleanup (st\<lparr>exportResult := Some (False, ''export failed'')\<rparr>)"

text \<open>
  The runtime firing an event at the recorder at index \<open>r\<close>: the handler runs if it is
  installed. What the runtime does to the recorder by itself around an event is not part
  of the repository and not modelled.
\<close>

definition fireStop :: "nat \<Rightarrow> 'k App \<Rightarrow> 'k App" where
  "fireStop r st =
     (if r < length (recorders st) \<and> onstop (recorders st ! r)
      then recorder_onstop (recorders st ! r) st else st)"

definition fireError :: "nat \<Rightarrow> 'k App \<Rightarrow> 'k App" where
  "fireError r st =
     (if r < length (recorders st) \<and> onerror (recorders st ! r)
      then recorder_onerror st else st)"

text \<open>
  The branch of \<^verbatim>\<open>drawFrame\<close> taken once the offline video has reached its end, after
  the guards of the function (the recorder is recording or inactive, the video ref is set
  and its element is in the document): \<^verbatim>\<open>if (recorder.state === 'recording')
  recorder.stop()\<close>. The runtime then fires the last \<^verbatim>\<open>dataavailable\<close> and
  \<^verbatim>\<open>stop\<close>.
\<close>

definition drawFrameAtEnd :: "nat \<Rightarrow> 'k App \<Rightarrow> 'k App" where
  "drawFrameAtEnd r st =
     (if r < length (recorders st) \<and> recState (recorders st ! r) \<noteq> paused then
        (case offlineVideoRef st of
           None \<Rightarrow> st
         | Some v \<Rightarrow>
             if v < length (videoElements st) \<and> inBody (videoElements st ! v)
             then st\<lparr>recorders :=
                    modifyAt r (\<lambda>rec. if recState rec = recording then rec\<lparr>recState := inactive\<rparr>
                                     else rec) (recorders st)\<rparr>
             else st)
      else st)"

text \<open>The ordered preference lists and \<^verbatim>\<open>preferredMimes.find(...) || ''\<close>.\<close>

definition preferredMimes :: "ExportFormat \<Rightarrow> string list" where
  "preferredMimes fmt =
     (if fmt = mp4 \<or> fmt = mov then
        [''video/mp4;codecs=avc1.640034,mp4a.40.2'',
         ''video/mp4;codecs=avc1.42E01E,mp4a.40.2'',
         ''video/mp4'',
         ''video/webm;codecs=vp9,opus'',
         ''video/webm'']
      else
        [''video/webm;codecs=vp9,opus'',
         ''video/webm;codecs=vp8,opus'',
         ''video/webm'',
         ''video/mp4;codecs=avc1.640034,mp4a.40.2'',
         ''video/mp4''])"

definition pickMime :: "ExportEnv \<Rightarrow> ExportFormat \<Rightarrow> string" where
  "pickMime env fmt =
     (case find (isTypeSupported env) (preferredMimes fmt) of None \<Rightarrow> [] | Some m \<Rightarrow> m)"

text \<open>
  The request after a cache miss: pick the container, or alert and stop; mark the export
  as running; create the offline video element; size the canvas; stop if there is no 2d
  context; create the audio context and the recorder with its handlers;
  \<^verbatim>\<open>recorder.start()\<close>; start playback, and clean up if it fails.
\<close>

definition encode :: "ExportEnv \<Rightarrow> string \<Rightarrow> 'k \<Rightarrow> 'k App \<Rightarrow> 'k App" where
  "encode env url currentExportKey st =
     (let mimeType = pickMime env (exportFormat st) in
      if mimeType = [] then st\<lparr>alerts := alerts st @ [''video export is not supported'']\<rparr>
      else
        let st1 = st\<lparr>isExporting := True, exportProgress := 0, exportTimeLeft := None,
                     isPreviewMode := False\<rparr>;
            st2 = st1\<lparr>videoElements := videoElements st1
                         @ [\<lparr>isPaused = True, src = Some url, inBody = True\<rparr>],
                       offlineVideoRef := Some (length (videoElements st1))\<rparr>;
            st3 = st2\<lparr>canvasSize := targetDimensions (videoWidth env) (videoHeight env)\<rparr>
        in if \<not> hasContext2d env then st3
           else
             let st4 = st3\<lparr>audioContexts := audioContexts st3 @ [\<lparr>isClosed = False\<rparr>],
                          exportAudioCtxRef := Some (length (audioContexts st3))\<rparr>;
                 st5 = st4\<lparr>recorders := recorders st4
                            @ [\<lparr>recState = inactive, recMimeType = mimeType, chunks = [],
                                jobKey = currentExportKey, jobFile = videoDataFile st4,
                                jobFormat = exportFormat st4, onstop = True, onerror = True\<rparr>],
                          mediaRecorderRef := Some (length (recorders st4))\<rparr>;
                 st6 = st5\<lparr>recorders :=
                            modifyAt (length (recorders st4)) (\<lambda>r. r\<lparr>recState := recording\<rparr>)
                              (recorders st5)\<rparr>
             in if playResolves env
                then st6\<lparr>videoElements :=
                       modifyAt (length (videoElements st1)) (\<lambda>v. v\<lparr>isPaused := False\<rparr>)
                         (videoElements st6)\<rparr>
                else cleanup st6)"

definition currentKey :: "string \<Rightarrow> 'k App \<Rightarrow> ExportKey" where
  "currentKey url st =
     \<lparr>keyVideoUrl = url, keySubtitles = appSubtitles st, keyViewMode = viewMode st,
      keySubStyle = subStyle st, keyExportFormat = exportFormat st\<rparr>"

text \<open>
  \<^verbatim>\<open>handleExportBurned\<close>: nothing without a video (no URL, or the empty string, which
  is falsy as well) or while an export runs; otherwise
  clear the last result, compute the key, and on a hit (the slot holds an entry with
  exactly this key) trigger the download of the cached blob and return.
\<close>

definition handleExportBurned :: "(ExportKey \<Rightarrow> 'k) \<Rightarrow> ExportEnv \<Rightarrow> 'k App \<Rightarrow> 'k App" where
  "handleExportBurned stringify env st =
     (case videoDataUrl st of
        None \<Rightarrow> st
      | Some url \<Rightarrow>
          if url = [] \<or> isExporting st then st
          else
            let st0 = st\<lparr>exportResult := None\<rparr>;
                currentExportKey = stringify (currentKey url st0)
            in (case cachedExportRef st0 of
                  None \<Rightarrow> encode env url currentExportKey st0
                | Some cached \<Rightarrow>
                    if key cached = currentExportKey
                    then st0\<lparr>downloads := downloads st0 @ [(blob cached, fileName cached)]\<rparr>
                    else encode env url currentExportKey st0))"


subsection \<open>Example states of an export\<close>

text \<open>A runtime that records WebM only, and a loaded video with one caption, nothing exported yet.\<close>

definition webmOnly :: ExportEnv where
  "webmOnly = \<lparr>isTypeSupported = (\<lambda>m. take 10 m = ''video/webm''), videoWidth = 1280,
      videoHeight = 720, hasContext2d = True, playResolves = True\<rparr>"

definition defaultStyle :: SubtitleStyle where
  "defaultStyle = \<lparr>enSize = 15, cnSize = 15, enColor = ''#ffffff'', cnColor = ''#facc15'',
      verticalPosition = 10\<rparr>"

definition idleApp :: "ExportKey App" where
  "idleApp = \<lparr>videoDataUrl = Some ''blob:1'', videoDataFile = Some ''talk.mp4'',
      appSubtitles = [seg 0 1.5 ''A'' ''a''], viewMode = dual, subStyle = defaultStyle,
      exportFormat = mp4, isExporting = False, exportProgress = 0, exportTimeLeft = None,
      exportResult = None, isPreviewMode = False, cachedExportRef = None,
      mediaRecorderRef = None, offlineVideoRef = None, exportAudioCtxRef = None,
      canvasSize = (0, 0), recorders = [], videoElements = [], audioContexts = [],
      downloads = [], alerts = []\<rparr>"

definition chunk :: "nat list \<Rightarrow> Blob" where
  "chunk bytes = \<lparr>content = bytes, mime = ''video/webm;codecs=vp9,opus''\<rparr>"

text \<open>
  The export of \<open>idleApp\<close> in the middle of recording, one chunk delivered. The key
  object itself stands for its text here.
\<close>

definition recordingApp :: "ExportKey App" where
  "recordingApp =
     recorder_ondataavailable 0 (chunk [26, 69]) (handleExportBurned (\<lambda>k. k) webmOnly idleApp)"

section \<open>The caption file: \<^verbatim>\<open>downloadSRT\<close> (App.tsx)\<close>

text \<open>
  Decimal digits. \<^verbatim>\<open>String(n)\<close> of a non-negative integer is its decimal representation
  without leading zeros; the fields of an ISO time are zero-padded to two or three digits.
\<close>

definition digitChar :: "nat \<Rightarrow> char" where
  "digitChar d = ''0123456789'' ! (d mod 10)"

function showNat :: "nat \<Rightarrow> string" where
  "showNat n = (if n < 10 then [digitChar n] else showNat (n div 10) @ [digitChar n])"
  by pat_completeness auto
termination
  by (relation "measure (\<lambda>n. n)") auto

declare showNat.simps [simp del]

definition pad2 :: "nat \<Rightarrow> string" where
  "pad2 n = [digitChar (n div 10), digitChar n]"

definition pad3 :: "nat \<Rightarrow> string" where
  "pad3 n = [digitChar (n div 100), digitChar (n div 10), digitChar n]"

definition newline :: char where
  "newline = CHR 0x0A"

text \<open>
  \<^verbatim>\<open>formatSrtTime\<close>: \<^verbatim>\<open>new Date(0)\<close>, \<^verbatim>\<open>setMilliseconds(s * 1000)\<close>,
  \<^verbatim>\<open>toISOString().substr(11, 12).replace('.', ',')\<close>. \<^verbatim>\<open>setMilliseconds\<close> truncates its
  argument towards zero and adds it to the epoch (the model takes the offset of the local
  time zone to be the same at both instants), so the time value is the truncated number of
  milliseconds. For a time value in the years 0000 to 9999 the ISO string is
  \<^verbatim>\<open>YYYY-MM-DDTHH:mm:ss.sssZ\<close> and the substring is the time of day: the date is
  dropped. Outside these years the ISO string has a six-digit year, and the substring is
  not a time; beyond the range of \<^verbatim>\<open>Date\<close>, \<^verbatim>\<open>toISOString\<close> throws a
  \<^verbatim>\<open>RangeError\<close>. The model returns an error value in both cases.
\<close>

datatype dateError = RangeError | ExpandedYear

definition truncate :: "real \<Rightarrow> int" where
  "truncate x = (if x \<ge> 0 then \<lfloor>x\<rfloor> else \<lceil>x\<rceil>)"

definition timeOfDay :: "int \<Rightarrow> string" where
  "timeOfDay tv =
     (let ms = nat (tv mod 86400000)
      in pad2 (ms div 3600000) @ '':'' @ pad2 (ms div 60000 mod 60) @ '':''
         @ pad2 (ms div 1000 mod 60) @ ''.'' @ pad3 (ms mod 1000))"

fun replaceFirst :: "char \<Rightarrow> char \<Rightarrow> string \<Rightarrow> string" where
  "replaceFirst a b [] = []"
| "replaceFirst a b (c # cs) = (if c = a then b # cs else c # replaceFirst a b cs)"

definition formatSrtTime :: "real \<Rightarrow> dateError + string" where
  "formatSrtTime s =
     (let tv = truncate (s * 1000) in
      if \<bar>tv\<bar> > 8640000000000000 then Inl RangeError
      else if tv < - 62167219200000 \<or> tv > 253402300799999 then Inl ExpandedYear
      else Inr (replaceFirst (CHR ''.'') (CHR '','') (timeOfDay tv)))"

text \<open>
  One iteration of \<^verbatim>\<open>subtitles.forEach((sub, index) => ...)\<close>: the three template
  strings appended to \<^verbatim>\<open>srtContent\<close>.
\<close>

definition srtEntry :: "nat \<Rightarrow> SubtitleSegment \<Rightarrow> dateError + string" where
  "srtEntry index sub =
     (case formatSrtTime (startTime sub) of
        Inl e \<Rightarrow> Inl e
      | Inr from \<Rightarrow>
          (case formatSrtTime (endTime sub) of
             Inl e \<Rightarrow> Inl e
           | Inr to \<Rightarrow>
               Inr (showNat (index + 1) @ [newline]
                    @ from @ '' --> '' @ to @ [newline]
                    @ english sub @ [newline] @ chinese sub @ [newline, newline])))"

fun srtFrom :: "nat \<Rightarrow> SubtitleSegment list \<Rightarrow> dateError + string" where
  "srtFrom index [] = Inr []"
| "srtFrom index (sub # rest) =
     (case srtEntry index sub of
        Inl e \<Rightarrow> Inl e
      | Inr entry \<Rightarrow>
          (case srtFrom (Suc index) rest of
             Inl e \<Rightarrow> Inl e
           | Inr others \<Rightarrow> Inr (entry @ others)))"

text \<open>
  \<^verbatim>\<open>downloadSRT\<close>: nothing for an empty list; otherwise the content and the suggested
  name, \<^verbatim>\<open>(videoData.file?.name.replace(/\.[^/.]+$/, "") || 'subtitles') + '.srt'\<close>.
\<close>

definition srtFileName :: "string option \<Rightarrow> string" where
  "srtFileName file =
     (let base = (case file of None \<Rightarrow> [] | Some name \<Rightarrow> stripExtension name)
      in (if base = [] then ''subtitles'' else base) @ ''.srt'')"

definition downloadSRT :: "string option \<Rightarrow> SubtitleSegment list \<Rightarrow> dateError + (string \<times> string) option" where
  "downloadSRT file subtitles =
     (if length subtitles = 0 then Inr None
      else
        (case srtFrom 0 subtitles of
           Inl e \<Rightarrow> Inl e
         | Inr srtContent \<Rightarrow> Inr (Some (srtContent, srtFileName file))))"

subsection \<open>Reading a caption file\<close>

text \<open>
  Modelled from the spec: the repository writes caption files and has no reader for them.
  The reader follows the format of the specification: the text is cut at line breaks, and
  each entry is a line with the 1-based sequence number, a timing line
  \<^verbatim>\<open>HH:MM:SS,mmm --> HH:MM:SS,mmm\<close>, the primary text line, the secondary text line and a
  blank line. A time is read as seconds from a zero epoch.
\<close>

fun splitLines :: "string \<Rightarrow> string list" where
  "splitLines [] = [[]]"
| "splitLines (c # cs) =
     (if c = newline then [] # splitLines cs
      else (case splitLines cs of
              [] \<Rightarrow> [[c]]
            | l # ls \<Rightarrow> (c # l) # ls))"

definition digitVal :: "char \<Rightarrow> nat option" where
  "digitVal c =
     (let n = (of_char c :: nat) in if 48 \<le> n \<and> n \<le> 57 then Some (n - 48) else None)"

definition parseNat :: "string \<Rightarrow> nat option" where
  "parseNat ds =
     (if ds = [] then None
      else foldl (\<lambda>acc c. case acc of
                            None \<Rightarrow> None
                          | Some a \<Rightarrow> (case digitVal c of None \<Rightarrow> None | Some d \<Rightarrow> Some (10 * a + d)))
             (Some 0) ds)"

definition parseTimestamp :: "string \<Rightarrow> real option" where
  "parseTimestamp s =
     (if length s = 12 \<and> s ! 2 = CHR '':'' \<and> s ! 5 = CHR '':'' \<and> s ! 8 = CHR '',''
      then
        (case parseNat (take 2 s) of None \<Rightarrow> None | Some h \<Rightarrow>
        (case parseNat (take 2 (drop 3 s)) of None \<Rightarrow> None | Some m \<Rightarrow>
        (case parseNat (take 2 (drop 6 s)) of None \<Rightarrow> None | Some sec \<Rightarrow>
        (case parseNat (drop 9 s) of None \<Rightarrow> None | Some ms \<Rightarrow>
           Some (real (((h * 60 + m) * 60 + sec) * 1000 + ms) / 1000)))))
      else None)"

definition parseTiming :: "string \<Rightarrow> (real \<times> real) option" where
  "parseTiming l =
     (if length l = 29 \<and> take 5 (drop 12 l) = '' --> ''
      then
        (case parseTimestamp (take 12 l) of None \<Rightarrow> None | Some from \<Rightarrow>
        (case parseTimestamp (drop 17 l) of None \<Rightarrow> None | Some to \<Rightarrow> Some (from, to)))
      else None)"

fun parseEntries :: "nat \<Rightarrow> string list \<Rightarrow> SubtitleSegment list option" where
  "parseEntries k (number # timing # primary # secondary # blank # rest) =
     (if parseNat number = Some k \<and> blank = [] then
        (case parseTiming timing of
           None \<Rightarrow> None
         | Some (from, to) \<Rightarrow>
             (case parseEntries (Suc k) rest of
                None \<Rightarrow> None
              | Some others \<Rightarrow>
                  Some (\<lparr>startTime = from, endTime = to, english = primary,
                          chinese = secondary\<rparr> # others)))
      else None)"
| "parseEntries k [[]] = Some []"
| "parseEntries k [] = Some []"
| "parseEntries k other = None"

definition parseSRT :: "string \<Rightarrow> SubtitleSegment list option" where
  "parseSRT text = parseEntries 1 (splitLines text)"

text \<open>\<^verbatim>\<open>HH:mm:ss,mmm\<close> of a number of milliseconds since midnight.\<close>

definition stamp :: "nat \<Rightarrow> string" where
  "stamp ms = pad2 (ms div 3600000) @ '':'' @ pad2 (ms div 60000 mod 60) @ '':''
         @ pad2 (ms div 1000 mod 60) @ '','' @ pad3 (ms mod 1000)"

text \<open>Written and read back within one millisecond, with the same texts.\<close>

definition sameCaption :: "SubtitleSegment \<Rightarrow> SubtitleSegment \<Rightarrow> bool" where
  "sameCaption written parsed =
     (\<bar>startTime parsed - startTime written\<bar> < 1 / 1000 \<and>
      \<bar>endTime parsed - endTime written\<bar> < 1 / 1000 \<and>
      english parsed = english written \<and> chinese parsed = chinese written)"

text \<open>What the format can carry: a time of day, and one line of text per field.\<close>

definition withinDay :: "real \<Rightarrow> bool" where
  "withinDay s = (0 \<le> s \<and> s < 86400)"

definition oneLine :: "string \<Rightarrow> bool" where
  "oneLine t = (newline \<notin> set t)"

definition writable :: "SubtitleSegment \<Rightarrow> bool" where
  "writable sub =
     (withinDay (startTime sub) \<and> withinDay (endTime sub) \<and>
      oneLine (english sub) \<and> oneLine (chinese sub))"

text \<open>An example list and the file written for it.\<close>

definition twoCaptions :: "SubtitleSegment list" where
  "twoCaptions = [seg 0 1.5 ''Hello there'' ''ni hao'', seg 1.5 3.0625 ''B'' ''b'']"

definition twoCaptionsFile :: string where
  "twoCaptionsFile = ''1\<newline>00:00:00,000 --> 00:00:01,500\<newline>Hello there\<newline>ni hao\<newline>\<newline>2\<newline>00:00:01,500 --> 00:00:03,062\<newline>B\<newline>b\<newline>\<newline>''"

section \<open>The key of the export cache: \<^verbatim>\<open>JSON.stringify\<close> (App.tsx)\<close>

text \<open>
  The text that \<^verbatim>\<open>JSON.stringify\<close> produces for the object
  \<^verbatim>\<open>{videoUrl, subtitles, viewMode, subStyle, exportFormat}\<close>, following the
  language standard: an object is written as \<^verbatim>\<open>{\<close>, its properties in the order of
  their creation, separated by commas, and \<^verbatim>\<open>}\<close>; a property is its quoted name, a
  colon and its value.

  A string is quoted by \<^verbatim>\<open>QuoteJSONString\<close>: between two double quotes (code 0x22),
  with the double quote and the backslash (code 0x5C) preceded by a backslash, the control
  characters below 0x20 written as a backslash and one of the letters b, t, n, f and r
  (backspace, tab, line feed, form feed, carriage return) or else as a backslash,
  \<^verbatim>\<open>u00\<close> and two lower-case hexadecimal digits, and every other character as it is.
  (A string of the language is a sequence of 16-bit code units, of which an unpaired
  surrogate is escaped as well; the characters of the model are bytes, among which there
  is none.)
\<close>

definition hexDigit :: "nat \<Rightarrow> char" where
  "hexDigit d = ''0123456789abcdef'' ! (d mod 16)"

definition escapeChar :: "char \<Rightarrow> string" where
  "escapeChar c =
     (if c = CHR 0x22 then [CHR 0x5C, CHR 0x22]
      else if c = CHR 0x5C then [CHR 0x5C, CHR 0x5C]
      else if c = CHR 0x08 then [CHR 0x5C, CHR ''b'']
      else if c = CHR 0x09 then [CHR 0x5C, CHR ''t'']
      else if c = CHR 0x0A then [CHR 0x5C, CHR ''n'']
      else if c = CHR 0x0C then [CHR 0x5C, CHR ''f'']
      else if c = CHR 0x0D then [CHR 0x5C, CHR ''r'']
      else if (of_char c :: nat) < 32
        then CHR 0x5C # ''u00'' @ [hexDigit (of_char c div 16), hexDigit (of_char c)]
      else [c])"

definition quoteJSONString :: "string \<Rightarrow> string" where
  "quoteJSONString s = CHR 0x22 # concat (map escapeChar s) @ [CHR 0x22]"

text \<open>
  A whole number is written by \<^verbatim>\<open>Number::toString\<close> in decimal, with a minus sign when
  it is negative.
\<close>

definition showInt :: "int \<Rightarrow> string" where
  "showInt i = (if i < 0 then CHR ''-'' # showNat (nat (- i)) else showNat (nat i))"

definition property :: "string \<Rightarrow> string \<Rightarrow> string" where
  "property name val = quoteJSONString name @ '':'' @ val"

text \<open>
  The values of \<^verbatim>\<open>SubtitleViewMode\<close> are the strings \<^verbatim>\<open>'dual'\<close>, \<^verbatim>\<open>'en'\<close>,
  \<^verbatim>\<open>'cn'\<close> and \<^verbatim>\<open>'off'\<close>; those of the export format are given by \<open>formatName\<close>.
\<close>

fun viewModeName :: "SubtitleViewMode \<Rightarrow> string" where
  "viewModeName dual = ''dual''"
| "viewModeName en = ''en''"
| "viewModeName cn = ''cn''"
| "viewModeName off = ''off''"

text \<open>
  The style object. Its properties are created in the order of the initial object literal,
  and the updates \<^verbatim>\<open>{...prev, cnSize: val}\<close> keep that order.
\<close>

definition stringifyStyle :: "SubtitleStyle \<Rightarrow> string" where
  "stringifyStyle s =
     ''{'' @ property ''enSize'' (showInt (enSize s))
     @ '','' @ property ''cnSize'' (showInt (cnSize s))
     @ '','' @ property ''enColor'' (quoteJSONString (enColor s))
     @ '','' @ property ''cnColor'' (quoteJSONString (cnColor s))
     @ '','' @ property ''verticalPosition'' (showInt (verticalPosition s))
     @ ''}''"

text \<open>
  The key object. The text of the segment array depends on \<^verbatim>\<open>Number::toString\<close> for
  the times, which are not whole numbers, and on the order in which the properties of each
  segment object were created (the objects come out of \<^verbatim>\<open>JSON.parse\<close> of the answer of
  the service): it is a parameter \<open>stringifySegments\<close>, of which nothing is assumed.
\<close>

definition JSON_stringify :: "(SubtitleSegment list \<Rightarrow> string) \<Rightarrow> ExportKey \<Rightarrow> string" where
  "JSON_stringify stringifySegments k =
     ''{'' @ property ''videoUrl'' (quoteJSONString (keyVideoUrl k))
     @ '','' @ property ''subtitles'' (stringifySegments (keySubtitles k))
     @ '','' @ property ''viewMode'' (quoteJSONString (viewModeName (keyViewMode k)))
     @ '','' @ property ''subStyle'' (stringifyStyle (keySubStyle k))
     @ '','' @ property ''exportFormat'' (quoteJSONString (formatName (keyExportFormat k)))
     @ ''}''"

text \<open>
  Reading a quoted string back, after its opening quote: the string and the text that
  follows the closing quote. It undoes \<open>escapeChar\<close>, which shows that the quoted text
  determines the string and where it ends.
\<close>

definition hexVal :: "char \<Rightarrow> nat" where
  "hexVal c = (let n = (of_char c :: nat) in if n \<le> 57 then n - 48 else n - 87)"

definition unescape :: "char \<Rightarrow> char" where
  "unescape e =
     (if e = CHR ''b'' then CHR 0x08
      else if e = CHR ''t'' then CHR 0x09
      else if e = CHR ''n'' then CHR 0x0A
      else if e = CHR ''f'' then CHR 0x0C
      else if e = CHR ''r'' then CHR 0x0D
      else e)"

fun unquote :: "string \<Rightarrow> (string \<times> string) option" where
  "unquote [] = None"
| "unquote (c # cs) =
     (if c = CHR 0x22 then Some ([], cs)
      else if c = CHR 0x5C then
        (case cs of
           [] \<Rightarrow> None
         | e # es \<Rightarrow>
             if e = CHR ''u'' then
               (case es of
                  a # b # x # y # rest \<Rightarrow>
                    (case unquote rest of
                       None \<Rightarrow> None
                     | Some (s, r) \<Rightarrow> Some (char_of (16 * hexVal x + hexVal y) # s, r))
                | _ \<Rightarrow> None)
             else
               (case unquote es of
                  None \<Rightarrow> None
                | Some (s, r) \<Rightarrow> Some (unescape e # s, r)))
      else
        (case unquote cs of
           None \<Rightarrow> None
         | Some (s, r) \<Rightarrow> Some (c # s, r)))"

subsection \<open>Example states of a completed export\<close>

text \<open>
  An example of the parameter: the text of an array of segments whose times are whole
  numbers, with the properties in the order of the interface \<^verbatim>\<open>SubtitleSegment\<close>.
\<close>

definition stringifySegment :: "SubtitleSegment \<Rightarrow> string" where
  "stringifySegment s =
     ''{'' @ property ''startTime'' (showInt \<lfloor>startTime s\<rfloor>)
     @ '','' @ property ''endTime'' (showInt \<lfloor>endTime s\<rfloor>)
     @ '','' @ property ''english'' (quoteJSONString (english s))
     @ '','' @ property ''chinese'' (quoteJSONString (chinese s))
     @ ''}''"

fun commaSeparated :: "string list \<Rightarrow> string" where
  "commaSeparated [] = []"
| "commaSeparated [x] = x"
| "commaSeparated (x # y # rest) = x @ '','' @ commaSeparated (y # rest)"

definition wholeSegments :: "SubtitleSegment list \<Rightarrow> string" where
  "wholeSegments ss = ''['' @ commaSeparated (map stringifySegment ss) @ '']''"

text \<open>A loaded video with one caption, nothing exported yet, with keys that are texts.\<close>

definition loadedApp :: "string App" where
  "loadedApp = \<lparr>videoDataUrl = Some ''blob:1'', videoDataFile = Some ''talk.mp4'',
      appSubtitles = [seg 0 2 ''A'' ''a''], viewMode = dual, subStyle = defaultStyle,
      exportFormat = mp4, isExporting = False, exportProgress = 0, exportTimeLeft = None,
      exportResult = None, isPreviewMode = False, cachedExportRef = None,
      mediaRecorderRef = None, offlineVideoRef = None, exportAudioCtxRef = None,
      canvasSize = (0, 0), recorders = [], videoElements = [], audioContexts = [],
      downloads = [], alerts = []\<rparr>"



section \<open>Properties of normalization\<close>

lemma clampLoop_id:
  "list_all (\<lambda>a. startTime (h a) < endTime (h a)) subs \<Longrightarrow> clampLoop h subs = h"
  by (induction subs) (simp_all add: fixEnd_def)

lemma trimLoop_id:
  "nonOverlapping (map h subs) \<Longrightarrow> trimLoop h subs = h"
  by (induction h subs rule: trimLoop.induct) (simp_all add: trimOne_def)

lemma startTime_fixEnd: "startTime (fixEnd h a b) = startTime (h b)"
  by (simp add: fixEnd_def)

lemma startTime_clampLoop: "startTime (clampLoop h subs b) = startTime (h b)"
  by (induction subs arbitrary: h) (simp_all add: startTime_fixEnd)

lemma startTime_trimOne: "startTime (trimOne h c n b) = startTime (h b)"
  by (simp add: trimOne_def)

lemma startTime_trimLoop: "startTime (trimLoop h subs b) = startTime (h b)"
  by (induction h subs rule: trimLoop.induct) (simp_all add: startTime_trimOne)

lemma endTime_trimOne_le: "endTime (trimOne h c n b) \<le> endTime (h b)"
  by (simp add: trimOne_def)

lemma endTime_trimLoop_le: "endTime (trimLoop h subs b) \<le> endTime (h b)"
proof (induction h subs rule: trimLoop.induct)
  case (1 h current "next" rest)
  have "endTime (trimLoop (trimOne h current next) (next # rest) b)
          \<le> endTime (trimOne h current next b)"
    by (rule 1)
  also have "\<dots> \<le> endTime (h b)"
    by (rule endTime_trimOne_le)
  finally show ?case by simp
qed simp_all

lemma trimOne_separates: "endTime (trimOne h c n c) \<le> startTime (h n)"
  by (simp add: trimOne_def)

lemma nonOverlapping_trimLoop: "nonOverlapping (map (trimLoop h subs) subs)"
proof (induction h subs rule: trimLoop.induct)
  case (1 h current "next" rest)
  let ?h' = "trimOne h current next"
  have "endTime (trimLoop ?h' (next # rest) current) \<le> endTime (?h' current)"
    by (rule endTime_trimLoop_le)
  also have "\<dots> \<le> startTime (h next)"
    by (rule trimOne_separates)
  finally have "endTime (trimLoop ?h' (next # rest) current)
                  \<le> startTime (trimLoop ?h' (next # rest) next)"
    by (simp add: startTime_trimLoop startTime_trimOne)
  with 1 show ?case by simp
qed simp_all

lemma fixEnd_positive: "startTime (fixEnd h a a) < endTime (fixEnd h a a)"
  by (simp add: fixEnd_def)

lemma fixEnd_keeps_positive:
  "startTime (h b) < endTime (h b) \<Longrightarrow> startTime (fixEnd h a b) < endTime (fixEnd h a b)"
  by (simp add: fixEnd_def)

lemma clampLoop_keeps_positive:
  "startTime (h b) < endTime (h b) \<Longrightarrow>
   startTime (clampLoop h subs b) < endTime (clampLoop h subs b)"
proof (induction subs arbitrary: h)
  case (Cons a rest)
  from Cons.prems have "startTime (fixEnd h a b) < endTime (fixEnd h a b)"
    by (rule fixEnd_keeps_positive)
  then have "startTime (clampLoop (fixEnd h a) rest b) < endTime (clampLoop (fixEnd h a) rest b)"
    by (rule Cons.IH)
  then show ?case by (simp only: clampLoop.simps)
qed simp

lemma clampLoop_positive:
  "b \<in> set subs \<Longrightarrow> startTime (clampLoop h subs b) < endTime (clampLoop h subs b)"
proof (induction subs arbitrary: h)
  case (Cons a rest)
  show ?case
  proof (cases "b = a")
    case True
    then show ?thesis
      using clampLoop_keeps_positive [of "fixEnd h a" a rest, OF fixEnd_positive]
      by (simp only: clampLoop.simps)
  next
    case False
    with Cons.prems have "b \<in> set rest" by simp
    then have "startTime (clampLoop (fixEnd h a) rest b) < endTime (clampLoop (fixEnd h a) rest b)"
      by (rule Cons.IH)
    then show ?thesis by (simp only: clampLoop.simps)
  qed
qed simp

lemma trimOne_keeps_ordered:
  assumes "startTime (h c) \<le> startTime (h n)"
    and "startTime (h b) \<le> endTime (h b)"
  shows "startTime (trimOne h c n b) \<le> endTime (trimOne h c n b)"
  using assms by (simp add: trimOne_def)

lemma trimLoop_keeps_ordered:
  assumes "sorted (map (\<lambda>a. startTime (h a)) subs)"
    and "startTime (h b) \<le> endTime (h b)"
  shows "startTime (trimLoop h subs b) \<le> endTime (trimLoop h subs b)"
  using assms
proof (induction h subs rule: trimLoop.induct)
  case (1 h current "next" rest)
  let ?h' = "trimOne h current next"
  from "1.prems" have le: "startTime (h current) \<le> startTime (h next)" by simp
  from "1.prems" have "sorted (map (\<lambda>a. startTime (?h' a)) (next # rest))"
    by (simp add: startTime_trimOne)
  moreover from le "1.prems"(2) have "startTime (?h' b) \<le> endTime (?h' b)"
    by (rule trimOne_keeps_ordered)
  ultimately have "startTime (trimLoop ?h' (next # rest) b) \<le> endTime (trimLoop ?h' (next # rest) b)"
    by (rule "1.IH")
  then show ?case by (simp only: trimLoop.simps)
qed simp_all

lemma trimOne_keeps_positive:
  assumes "startTime (h c) < startTime (h n)"
    and "startTime (h b) < endTime (h b)"
  shows "startTime (trimOne h c n b) < endTime (trimOne h c n b)"
  using assms by (simp add: trimOne_def)

lemma trimLoop_keeps_positive:
  assumes "sorted_wrt (<) (map (\<lambda>a. startTime (h a)) subs)"
    and "startTime (h b) < endTime (h b)"
  shows "startTime (trimLoop h subs b) < endTime (trimLoop h subs b)"
  using assms
proof (induction h subs rule: trimLoop.induct)
  case (1 h current "next" rest)
  let ?h' = "trimOne h current next"
  from "1.prems" have le: "startTime (h current) < startTime (h next)" by simp
  from "1.prems" have "sorted_wrt (<) (map (\<lambda>a. startTime (?h' a)) (next # rest))"
    by (simp add: startTime_trimOne)
  moreover from le "1.prems"(2) have "startTime (?h' b) < endTime (?h' b)"
    by (rule trimOne_keeps_positive)
  ultimately have "startTime (trimLoop ?h' (next # rest) b) < endTime (trimLoop ?h' (next # rest) b)"
    by (rule "1.IH")
  then show ?case by (simp only: trimLoop.simps)
qed simp_all

subsection \<open>What normalization guarantees on every input\<close>

lemma postProcessSubtitles_sorted:
  "sorted (map startTime
     (readback (snd (postProcessSubtitles h subs)) (fst (postProcessSubtitles h subs))))"
  by (simp add: postProcessSubtitles_def readback_def Let_def comp_def sortByStart_def
      startTime_trimLoop startTime_clampLoop)

lemma postProcessSubtitles_nonOverlapping:
  "nonOverlapping
     (readback (snd (postProcessSubtitles h subs)) (fst (postProcessSubtitles h subs)))"
  by (simp add: postProcessSubtitles_def readback_def Let_def nonOverlapping_trimLoop)

lemma postProcessSubtitles_ordered:
  "list_all (\<lambda>s. startTime s \<le> endTime s)
     (readback (snd (postProcessSubtitles h subs)) (fst (postProcessSubtitles h subs)))"
proof (cases "subs = []")
  case True
  then show ?thesis by (simp add: postProcessSubtitles_def readback_def)
next
  case False
  let ?sorted = "sortByStart h subs"
  let ?h1 = "clampLoop h ?sorted"
  have srt: "sorted (map (\<lambda>a. startTime (?h1 a)) ?sorted)"
    by (simp add: startTime_clampLoop sortByStart_def)
  have "startTime (trimLoop ?h1 ?sorted b) \<le> endTime (trimLoop ?h1 ?sorted b)"
    if "b \<in> set ?sorted" for b
  proof -
    from that have "startTime (?h1 b) < endTime (?h1 b)"
      by (rule clampLoop_positive)
    then have "startTime (?h1 b) \<le> endTime (?h1 b)" by simp
    with srt show ?thesis by (rule trimLoop_keeps_ordered)
  qed
  with False show ?thesis
    by (simp add: postProcessSubtitles_def readback_def Let_def list_all_iff)
qed

text \<open>
  When no two raw segments start at the same time, every duration of the output is
  positive.
\<close>

lemma postProcessSubtitles_positive:
  assumes "distinct (map (\<lambda>a. startTime (h a)) subs)"
  shows "positiveDurations
     (readback (snd (postProcessSubtitles h subs)) (fst (postProcessSubtitles h subs)))"
proof (cases "subs = []")
  case True
  then show ?thesis by (simp add: postProcessSubtitles_def readback_def positiveDurations_def)
next
  case False
  let ?sorted = "sortByStart h subs"
  let ?h1 = "clampLoop h ?sorted"
  have "mset (map (\<lambda>a. startTime (h a)) ?sorted) = mset (map (\<lambda>a. startTime (h a)) subs)"
    by (simp add: sortByStart_def)
  with assms have "distinct (map (\<lambda>a. startTime (h a)) ?sorted)"
    by (metis mset_eq_imp_distinct_iff)
  moreover have "sorted (map (\<lambda>a. startTime (h a)) ?sorted)"
    by (simp add: sortByStart_def)
  ultimately have "sorted_wrt (<) (map (\<lambda>a. startTime (h a)) ?sorted)"
    by (simp add: strict_sorted_iff)
  then have srt: "sorted_wrt (<) (map (\<lambda>a. startTime (?h1 a)) ?sorted)"
    by (simp add: startTime_clampLoop)
  have "startTime (trimLoop ?h1 ?sorted b) < endTime (trimLoop ?h1 ?sorted b)"
    if "b \<in> set ?sorted" for b
  proof -
    from that have "startTime (?h1 b) < endTime (?h1 b)"
      by (rule clampLoop_positive)
    with srt show ?thesis by (rule trimLoop_keeps_positive)
  qed
  with False show ?thesis
    by (simp add: postProcessSubtitles_def readback_def Let_def list_all_iff
        positiveDurations_def)
qed

text \<open>
  C1. The claim: for every raw list the output of \<^verbatim>\<open>postProcessSubtitles\<close> is sorted on
  \<^verbatim>\<open>startTime\<close>, adjacent segments do not overlap, and every \<^verbatim>\<open>endTime\<close> is after
  its \<^verbatim>\<open>startTime\<close>. The first two parts hold (the lemmas above). The third fails
  when two raw segments start at the same time: the trim of step 3 sets the end of the
  first to the start of the second, which is its own start, and nothing checks the
  duration again, although step 2 is there to make every duration positive.
\<close>

theorem postProcessSubtitles_zero_duration:
  "readback (snd (postProcessSubtitles tieStore [0, 1]))
     (fst (postProcessSubtitles tieStore [0, 1]))
     = [seg 0 0 ''A'' ''a'', seg 0 3 ''B'' ''b''] \<and>
   \<not> positiveDurations
     (readback (snd (postProcessSubtitles tieStore [0, 1]))
       (fst (postProcessSubtitles tieStore [0, 1])))"
  by (simp add: postProcessSubtitles_def sortByStart_def tieStore_def storeOf_def seg_def
      fixEnd_def trimOne_def readback_def positiveDurations_def)

text \<open>
  C5. Normalization is idempotent: on a list that is already normalized (sorted on
  \<^verbatim>\<open>startTime\<close>, adjacent segments not overlapping, every \<^verbatim>\<open>endTime\<close> after its
  \<^verbatim>\<open>startTime\<close>) \<^verbatim>\<open>postProcessSubtitles\<close> returns the same references in the same order
  and writes nothing to the store, so the output read back is identical to the input.
\<close>

theorem postProcessSubtitles_idempotent:
  assumes "normalized (readback h subs)"
  shows "postProcessSubtitles h subs = (subs, h) \<and>
         readback (snd (postProcessSubtitles h subs)) (fst (postProcessSubtitles h subs))
           = readback h subs"
proof -
  from assms have srt: "sorted (map (\<lambda>a. startTime (h a)) subs)"
    and nov: "nonOverlapping (map h subs)"
    and pos: "list_all (\<lambda>a. startTime (h a) < endTime (h a)) subs"
    by (simp_all add: normalized_def readback_def positiveDurations_def comp_def list_all_iff)
  from srt have "sortByStart h subs = subs"
    by (simp add: sortByStart_def sort_key_id_if_sorted)
  with nov pos have "postProcessSubtitles h subs = (subs, h)"
    by (simp add: postProcessSubtitles_def clampLoop_id trimLoop_id)
  then show ?thesis by simp
qed

theorem postProcessSubtitles_idempotent_witness:
  "normalized (readback trimmedStore [0, 1]) \<and>
   postProcessSubtitles trimmedStore [0, 1] = ([0, 1], trimmedStore) \<and>
   readback (snd (postProcessSubtitles trimmedStore [0, 1]))
     (fst (postProcessSubtitles trimmedStore [0, 1]))
     = [seg 0 1.5 ''A'' ''a'', seg 1.5 3 ''B'' ''b'']"
proof -
  have n: "normalized (readback trimmedStore [0, 1])"
    by (simp add: normalized_def readback_def trimmedStore_def storeOf_def seg_def
        positiveDurations_def)
  have r: "readback trimmedStore [0, 1] = [seg 0 1.5 ''A'' ''a'', seg 1.5 3 ''B'' ''b'']"
    by (simp add: readback_def trimmedStore_def storeOf_def)
  from postProcessSubtitles_idempotent [OF n] n r show ?thesis by simp
qed

lemma unchanged_fixEnd:
  "startTime (fixEnd h a b) = startTime (h b) \<and> english (fixEnd h a b) = english (h b) \<and>
   chinese (fixEnd h a b) = chinese (h b)"
  by (simp add: fixEnd_def)

lemma unchanged_clampLoop:
  "startTime (clampLoop h subs b) = startTime (h b) \<and>
   english (clampLoop h subs b) = english (h b) \<and>
   chinese (clampLoop h subs b) = chinese (h b)"
  by (induction subs arbitrary: h) (simp_all add: unchanged_fixEnd)

lemma unchanged_trimOne:
  "startTime (trimOne h c n b) = startTime (h b) \<and> english (trimOne h c n b) = english (h b) \<and>
   chinese (trimOne h c n b) = chinese (h b)"
  by (simp add: trimOne_def)

lemma unchanged_trimLoop:
  "startTime (trimLoop h subs b) = startTime (h b) \<and>
   english (trimLoop h subs b) = english (h b) \<and>
   chinese (trimLoop h subs b) = chinese (h b)"
  by (induction h subs rule: trimLoop.induct) (simp_all add: unchanged_trimOne)

text \<open>
  C9. \<^verbatim>\<open>postProcessSubtitles\<close> can change its caller's data. The array it returns holds
  the same references as the input array (it is a rearrangement of them), and the loops
  write \<^verbatim>\<open>endTime\<close> through these references, every other field staying as it was. So
  the caller's segments change: in the overlap scenario the trim turns the end of the
  first input segment from 2 into 1.5, and the clamp turns the end of a zero-duration
  segment from 5 into 6.5.
\<close>

theorem postProcessSubtitles_mutates_input:
  "mset (fst (postProcessSubtitles h subs)) = mset subs \<and>
   startTime (snd (postProcessSubtitles h subs) a) = startTime (h a) \<and>
   english (snd (postProcessSubtitles h subs) a) = english (h a) \<and>
   chinese (snd (postProcessSubtitles h subs) a) = chinese (h a) \<and>
   readback overlapStore [0, 1] = [seg 0 2 ''A'' ''a'', seg 1.5 3 ''B'' ''b''] \<and>
   readback (snd (postProcessSubtitles overlapStore [0, 1])) [0, 1]
     = [seg 0 1.5 ''A'' ''a'', seg 1.5 3 ''B'' ''b''] \<and>
   readback zeroStore [0] = [seg 5 5 ''X'' ''X''] \<and>
   readback (snd (postProcessSubtitles zeroStore [0])) [0] = [seg 5 6.5 ''X'' ''X'']"
proof -
  have "mset (fst (postProcessSubtitles h subs)) = mset subs"
    by (simp add: postProcessSubtitles_def Let_def sortByStart_def)
  moreover have "startTime (snd (postProcessSubtitles h subs) a) = startTime (h a)"
    "english (snd (postProcessSubtitles h subs) a) = english (h a)"
    "chinese (snd (postProcessSubtitles h subs) a) = chinese (h a)"
    by (simp_all add: postProcessSubtitles_def Let_def unchanged_trimLoop unchanged_clampLoop)
  moreover have "readback overlapStore [0, 1] = [seg 0 2 ''A'' ''a'', seg 1.5 3 ''B'' ''b'']"
    by (simp add: readback_def overlapStore_def storeOf_def)
  moreover have "readback (snd (postProcessSubtitles overlapStore [0, 1])) [0, 1]
     = [seg 0 1.5 ''A'' ''a'', seg 1.5 3 ''B'' ''b'']"
    by (simp add: postProcessSubtitles_def sortByStart_def overlapStore_def storeOf_def seg_def
        fixEnd_def trimOne_def readback_def)
  moreover have "readback zeroStore [0] = [seg 5 5 ''X'' ''X'']"
    by (simp add: readback_def zeroStore_def storeOf_def)
  moreover have "readback (snd (postProcessSubtitles zeroStore [0])) [0] = [seg 5 6.5 ''X'' ''X'']"
    by (simp add: postProcessSubtitles_def sortByStart_def zeroStore_def storeOf_def seg_def
        fixEnd_def readback_def)
  ultimately show ?thesis by simp
qed

section \<open>Properties of the active-segment lookup\<close>

lemma forwardScan_total: "\<exists>found. forwardScan h subtitles time i = Inr found"
proof (induction h subtitles time i rule: forwardScan.induct)
  case (1 h subtitles time i)
  show ?case
  proof (cases "i < length subtitles")
    case True
    with 1 show ?thesis
      by (subst forwardScan.simps) (auto simp: element_def)
  next
    case False
    then show ?thesis by (subst forwardScan.simps) simp
  qed
qed

lemma backwardScan_total:
  "scanEnd \<le> length subtitles \<Longrightarrow> \<exists>found. backwardScan h subtitles time scanEnd i = Inr found"
proof (induction h subtitles time scanEnd i rule: backwardScan.induct)
  case (1 h subtitles time scanEnd i)
  show ?case
  proof (cases "i < scanEnd")
    case True
    with 1 show ?thesis
      by (subst backwardScan.simps) (auto simp: element_def)
  next
    case False
    then show ?thesis by (subst backwardScan.simps) simp
  qed
qed


lemma forwardScan_Some:
  "forwardScan h subtitles time i = Inr (Some s, k) \<Longrightarrow>
   \<exists>j. k = int j \<and> i \<le> j \<and> j < length subtitles \<and> s = subtitles ! j \<and>
       containsTime h time s \<and> (\<forall>j'. i \<le> j' \<and> j' < j \<longrightarrow> \<not> containsTime h time (subtitles ! j'))"
proof (induction h subtitles time i rule: forwardScan.induct)
  case (1 h subtitles time i)
  from "1.prems" have lt: "i < length subtitles"
    by (subst (asm) forwardScan.simps) (simp split: if_splits)
  show ?case
  proof (cases "containsTime h time (subtitles ! i)")
    case True
    with "1.prems" lt have "s = subtitles ! i \<and> k = int i"
      by (subst (asm) forwardScan.simps) (auto simp: element_def)
    with True lt show ?thesis by auto
  next
    case False
    with "1.prems" lt have both: "\<not> startTime (h (subtitles ! i)) > time \<and>
        forwardScan h subtitles time (Suc i) = Inr (Some s, k)"
      by (subst (asm) forwardScan.simps) (auto simp: element_def split: if_splits)
    then have later: "\<not> startTime (h (subtitles ! i)) > time"
      and rec: "forwardScan h subtitles time (Suc i) = Inr (Some s, k)"
      by simp_all
    from lt False later rec
    obtain j where j: "k = int j" "Suc i \<le> j" "j < length subtitles" "s = subtitles ! j"
      "containsTime h time s"
      "\<forall>j'. Suc i \<le> j' \<and> j' < j \<longrightarrow> \<not> containsTime h time (subtitles ! j')"
      using "1.IH" [of "subtitles ! i"] by (auto simp: element_def)
    have "\<not> containsTime h time (subtitles ! j')" if "i \<le> j'" "j' < j" for j'
    proof (cases "j' = i")
      case True
      with False show ?thesis by simp
    next
      case False
      with that j(6) show ?thesis by auto
    qed
    with j show ?thesis by auto
  qed
qed

lemma forwardScan_None:
  assumes "sorted (map (\<lambda>a. startTime (h a)) subtitles)"
    and "forwardScan h subtitles time i = Inr (None, k)"
  shows "k = -1 \<and> (\<forall>j. i \<le> j \<and> j < length subtitles \<longrightarrow> \<not> containsTime h time (subtitles ! j))"
  using assms
proof (induction h subtitles time i rule: forwardScan.induct)
  case (1 h subtitles time i)
  show ?case
  proof (cases "i < length subtitles")
    case False
    with "1.prems" show ?thesis
      by (subst (asm) forwardScan.simps) auto
  next
    case lt: True
    from "1.prems"(2) lt have nc: "\<not> containsTime h time (subtitles ! i)"
      by (subst (asm) forwardScan.simps) (simp add: element_def split: if_splits)
    show ?thesis
    proof (cases "startTime (h (subtitles ! i)) > time")
      case True
      with "1.prems"(2) lt nc have "k = -1"
        by (subst (asm) forwardScan.simps) (simp add: element_def)
      moreover have "\<not> containsTime h time (subtitles ! j)" if "i \<le> j" "j < length subtitles" for j
      proof -
        from "1.prems"(1) that have "startTime (h (subtitles ! i)) \<le> startTime (h (subtitles ! j))"
          using sorted_nth_mono [of "map (\<lambda>a. startTime (h a)) subtitles" i j] by simp
        with True show ?thesis by (simp add: containsTime_def)
      qed
      ultimately show ?thesis by simp
    next
      case False
      with "1.prems"(2) lt nc have rec: "forwardScan h subtitles time (Suc i) = Inr (None, k)"
        by (subst (asm) forwardScan.simps) (simp add: element_def)
      from lt nc False "1.prems"(1) rec
      have ih: "k = -1 \<and> (\<forall>j. Suc i \<le> j \<and> j < length subtitles \<longrightarrow> \<not> containsTime h time (subtitles ! j))"
        using "1.IH" [of "subtitles ! i"] by (simp add: element_def)
      have "\<not> containsTime h time (subtitles ! j)" if "i \<le> j" "j < length subtitles" for j
      proof (cases "j = i")
        case True
        with nc show ?thesis by simp
      next
        case False
        with that ih show ?thesis by auto
      qed
      with ih show ?thesis by simp
    qed
  qed
qed

lemma backwardScan_Some:
  "backwardScan h subtitles time scanEnd i = Inr (Some s, k) \<Longrightarrow> scanEnd \<le> length subtitles \<Longrightarrow>
   \<exists>j. k = int j \<and> i \<le> j \<and> j < scanEnd \<and> s = subtitles ! j \<and> containsTime h time s"
proof (induction h subtitles time scanEnd i rule: backwardScan.induct)
  case (1 h subtitles time scanEnd i)
  from "1.prems" have lt: "i < scanEnd"
    by (subst (asm) backwardScan.simps) (simp split: if_splits)
  show ?case
  proof (cases "containsTime h time (subtitles ! i)")
    case True
    with "1.prems" lt have "s = subtitles ! i \<and> k = int i"
      by (subst (asm) backwardScan.simps) (auto simp: element_def)
    with True lt show ?thesis by auto
  next
    case False
    with "1.prems" lt have rec: "backwardScan h subtitles time scanEnd (Suc i) = Inr (Some s, k)"
      by (subst (asm) backwardScan.simps) (simp add: element_def)
    from lt False rec "1.prems"(2)
    obtain j where "k = int j" "Suc i \<le> j" "j < scanEnd" "s = subtitles ! j" "containsTime h time s"
      using "1.IH" [of "subtitles ! i"] by (auto simp: element_def)
    then show ?thesis by auto
  qed
qed

lemma backwardScan_None:
  "backwardScan h subtitles time scanEnd i = Inr (None, k) \<Longrightarrow> k = -1"
proof (induction h subtitles time scanEnd i rule: backwardScan.induct)
  case (1 h subtitles time scanEnd i)
  show ?case
  proof (cases "i < scanEnd \<and> i < length subtitles")
    case False
    with "1.prems" show ?thesis
      by (subst (asm) backwardScan.simps) (auto simp: element_def split: if_splits)
  next
    case True
    with "1.prems" have nc: "\<not> containsTime h time (subtitles ! i)"
      by (subst (asm) backwardScan.simps) (simp add: element_def split: if_splits)
    with "1.prems" True have rec: "backwardScan h subtitles time scanEnd (Suc i) = Inr (None, k)"
      by (subst (asm) backwardScan.simps) (simp add: element_def)
    with True nc show ?thesis
      using "1.IH" [of "subtitles ! i"] by (simp add: element_def)
  qed
qed


lemma nonOverlapping_nth:
  "nonOverlapping ss \<Longrightarrow> Suc j < length ss \<Longrightarrow> endTime (ss ! j) \<le> startTime (ss ! Suc j)"
proof (induction ss arbitrary: j rule: nonOverlapping.induct)
  case (1 current "next" rest)
  then show ?case by (cases j) simp_all
qed simp_all

lemma normalized_sorted:
  "normalized (readback h subtitles) \<Longrightarrow> sorted (map (\<lambda>a. startTime (h a)) subtitles)"
  by (simp add: normalized_def readback_def comp_def)

lemma normalized_positive:
  "normalized (readback h subtitles) \<Longrightarrow> i < length subtitles \<Longrightarrow>
   startTime (h (subtitles ! i)) < endTime (h (subtitles ! i))"
  by (simp add: normalized_def readback_def positiveDurations_def list_all_length)

lemma normalized_before:
  assumes "normalized (readback h subtitles)" and "j < i" and "i < length subtitles"
  shows "endTime (h (subtitles ! j)) \<le> startTime (h (subtitles ! i))"
proof -
  from assms have "endTime (map h subtitles ! j) \<le> startTime (map h subtitles ! Suc j)"
    by (intro nonOverlapping_nth) (simp_all add: normalized_def readback_def)
  with assms have "endTime (h (subtitles ! j)) \<le> startTime (h (subtitles ! Suc j))"
    by simp
  also from assms have "\<dots> \<le> startTime (h (subtitles ! i))"
    using sorted_nth_mono [OF normalized_sorted [OF assms(1)], of "Suc j" i] by simp
  finally show ?thesis .
qed

text \<open>Of two segments of a normalized list that contain the same time, the later one starts at it.\<close>

lemma normalized_shared_boundary:
  assumes "normalized (readback h subtitles)" and "j < i" and "i < length subtitles"
    and "containsTime h time (subtitles ! j)" and "containsTime h time (subtitles ! i)"
  shows "time = endTime (h (subtitles ! j)) \<and> time = startTime (h (subtitles ! i))"
  using normalized_before [OF assms(1-3)] assms(4,5) by (simp add: containsTime_def)

lemma referenceScan_first:
  assumes "i < length subtitles" and "containsTime h time (subtitles ! i)"
    and "\<forall>j<i. \<not> containsTime h time (subtitles ! j)"
  shows "referenceScan h subtitles time = Some (subtitles ! i)"
  unfolding referenceScan_def find_Some_iff using assms by blast

lemma referenceScan_none:
  assumes "\<forall>j<length subtitles. \<not> containsTime h time (subtitles ! j)"
  shows "referenceScan h subtitles time = None"
  unfolding referenceScan_def find_None_iff using assms by (auto simp: in_set_conv_nth)

lemma search_refines:
  assumes norm: "normalized (readback h subtitles)"
    and tr: "tracking h subtitles earlier st"
    and mono: "earlier \<le> time"
  shows "\<exists>found k. search h subtitles time st = Inr (found, k) \<and>
           found = referenceScan h subtitles time \<and>
           (found = activeSubRef st \<longrightarrow> k = activeSubIndexRef st) \<and>
           tracking h subtitles time (st\<lparr>activeSubRef := found, activeSubIndexRef := k\<rparr>)"
proof (cases "activeSubRef st")
  case None
  with tr have idx: "activeSubIndexRef st = -1" by (simp add: tracking_def)
  then have start: "startIndex st = 0" by (simp add: startIndex_def)
  from None have nv: "\<not> cacheValid h time st" by (simp add: cacheValid_def)
  obtain found k where fs: "forwardScan h subtitles time 0 = Inr (found, k)"
    using forwardScan_total [of h subtitles time 0] by auto
  with nv start have res: "search h subtitles time st = Inr (found, k)"
    by (simp add: search_def)
  show ?thesis
  proof (cases found)
    case None
    with fs have "k = -1" and none: "\<forall>j<length subtitles. \<not> containsTime h time (subtitles ! j)"
      using forwardScan_None [OF normalized_sorted [OF norm], of time 0 k] by simp_all
    with res None idx \<open>activeSubRef st = None\<close> show ?thesis
      by (simp add: referenceScan_none tracking_def)
  next
    case (Some s)
    with fs obtain j where j: "k = int j" "j < length subtitles" "s = subtitles ! j"
      "containsTime h time s" "\<forall>j'<j. \<not> containsTime h time (subtitles ! j')"
      using forwardScan_Some [of h subtitles time 0 s k] by auto
    with res Some \<open>activeSubRef st = None\<close> show ?thesis
      by (auto simp: referenceScan_first tracking_def)
  qed
next
  case (Some c)
  with tr obtain i where i: "i < length subtitles" "activeSubIndexRef st = int i"
    "c = subtitles ! i" "containsTime h earlier c"
    "\<forall>j<i. \<not> containsTime h earlier (subtitles ! j)"
    by (auto simp: tracking_def)
  then have start: "startIndex st = i" by (simp add: startIndex_def)
  show ?thesis
  proof (cases "containsTime h time c")
    case True
    with Some have res: "search h subtitles time st = Inr (Some c, int i)"
      by (simp add: search_def cacheValid_def i)
    have first: "\<not> containsTime h time (subtitles ! j)" if "j < i" for j
    proof
      assume cj: "containsTime h time (subtitles ! j)"
      from normalized_shared_boundary [OF norm that i(1) cj] True i(3)
      have "time = endTime (h (subtitles ! j))" "time = startTime (h c)" by simp_all
      moreover from i(4) mono have "startTime (h c) \<le> earlier" "earlier \<le> time"
        by (simp_all add: containsTime_def)
      ultimately have "earlier = endTime (h (subtitles ! j))" by simp
      moreover from that i(1) have "startTime (h (subtitles ! j)) < endTime (h (subtitles ! j))"
        by (intro normalized_positive [OF norm]) simp
      ultimately have "containsTime h earlier (subtitles ! j)" by (simp add: containsTime_def)
      with i(5) that show False by simp
    qed
    with i True have "referenceScan h subtitles time = Some c"
      by (simp add: referenceScan_first)
    moreover from first i True
    have "tracking h subtitles time (st\<lparr>activeSubRef := Some c, activeSubIndexRef := int i\<rparr>)"
      by (auto simp: tracking_def)
    ultimately show ?thesis using res Some i by simp
  next
    case False
    with Some have nv: "\<not> cacheValid h time st" by (simp add: cacheValid_def)
    from False i(4) mono have after: "endTime (h (subtitles ! i)) < time"
      by (simp add: containsTime_def i(3))
    have before: "\<not> containsTime h time (subtitles ! j)" if "j < i" for j
    proof -
      from normalized_before [OF norm that i(1)] normalized_positive [OF norm i(1)] after
      show ?thesis by (simp add: containsTime_def)
    qed
    obtain found k where fs: "forwardScan h subtitles time i = Inr (found, k)"
      using forwardScan_total [of h subtitles time i] by auto
    show ?thesis
    proof (cases found)
      case (Some s)
      with fs obtain j where j: "k = int j" "i \<le> j" "j < length subtitles" "s = subtitles ! j"
        "containsTime h time s" "\<forall>j'. i \<le> j' \<and> j' < j \<longrightarrow> \<not> containsTime h time (subtitles ! j')"
        using forwardScan_Some [of h subtitles time i s k] by auto
      from nv start fs Some have res: "search h subtitles time st = Inr (Some s, k)"
        by (simp add: search_def)
      have first: "\<forall>j'<j. \<not> containsTime h time (subtitles ! j')"
      proof (intro allI impI)
        fix j' assume "j' < j"
        show "\<not> containsTime h time (subtitles ! j')"
        proof (cases "j' < i")
          case True
          then show ?thesis by (rule before)
        next
          case False
          with \<open>j' < j\<close> j(6) show ?thesis by auto
        qed
      qed
      from j(5) \<open>\<not> containsTime h time c\<close> have "s \<noteq> c" by auto
      with res j first \<open>activeSubRef st = Some c\<close> show ?thesis
        by (auto simp: referenceScan_first tracking_def)
    next
      case None
      with fs have later: "\<forall>j. i \<le> j \<and> j < length subtitles \<longrightarrow> \<not> containsTime h time (subtitles ! j)"
        and "k = -1"
        using forwardScan_None [OF normalized_sorted [OF norm], of time i k] by simp_all
      have none: "\<forall>j<length subtitles. \<not> containsTime h time (subtitles ! j)"
      proof (intro allI impI)
        fix j assume "j < length subtitles"
        with later before [of j] show "\<not> containsTime h time (subtitles ! j)"
          by (cases "j < i") auto
      qed
      have res: "search h subtitles time st = Inr (None, -1)"
      proof (cases "i > 0")
        case False
        with nv start fs None \<open>k = -1\<close> show ?thesis by (simp add: search_def)
      next
        case True
        from i(1) have le: "min i (length subtitles) \<le> length subtitles" by simp
        obtain found' k' where bs: "backwardScan h subtitles time (min i (length subtitles)) 0 = Inr (found', k')"
          using backwardScan_total [OF le, of h time 0] by auto
        have "found' = None"
        proof (rule ccontr)
          assume "found' \<noteq> None"
          then obtain s where "found' = Some s" by auto
          with bs le obtain j where "j < min i (length subtitles)" "s = subtitles ! j" "containsTime h time s"
            using backwardScan_Some [of h subtitles time "min i (length subtitles)" 0 s k'] by auto
          with before [of j] show False by simp
        qed
        with bs have "k' = -1" using backwardScan_None [of h subtitles time _ 0 k'] by simp
        with nv start fs None True bs \<open>found' = None\<close> show ?thesis by (simp add: search_def)
      qed
      with none \<open>activeSubRef st = Some c\<close> show ?thesis
        by (simp add: referenceScan_none tracking_def)
    qed
  qed
qed


lemma tracking_fields:
  "tracking h subtitles time (st\<lparr>activeSubRef := f, activeSubIndexRef := k, activeSubtitle := d\<rparr>)
     = tracking h subtitles time (st\<lparr>activeSubRef := f, activeSubIndexRef := k\<rparr>)"
  "tracking h subtitles time (st\<lparr>video := v\<rparr>) = tracking h subtitles time st"
  by (simp_all add: tracking_def)

lemma tracking_in_range:
  "tracking h subtitles time st \<Longrightarrow> activeSubIndexRef st < int (length subtitles)"
  by (auto simp: tracking_def split: option.splits)

lemma updateUI_refines:
  assumes norm: "normalized (readback h subtitles)"
    and tr: "tracking h subtitles earlier st"
    and mono: "earlier \<le> time"
  shows "\<exists>st'. updateUI h subtitles (st\<lparr>video := Some time\<rparr>) = Inr st' \<and>
           activeSubRef st' = referenceScan h subtitles time \<and>
           tracking h subtitles time st'"
proof (cases "subtitles = []")
  case True
  with tr have "activeSubRef st = None" "activeSubIndexRef st = -1"
    by (auto simp: tracking_def split: option.splits)
  with True show ?thesis
    by (simp add: updateUI_def commit_def referenceScan_def tracking_def)
next
  case False
  let ?st = "st\<lparr>video := Some time\<rparr>"
  from tr have tr': "tracking h subtitles earlier ?st" by (simp add: tracking_fields)
  from tracking_in_range [OF tr] have fresh: "resetStale subtitles ?st = ?st"
    by (simp add: resetStale_def)
  from search_refines [OF norm tr' mono]
  obtain found k where s: "search h subtitles time ?st = Inr (found, k)"
    "found = referenceScan h subtitles time"
    "found = activeSubRef ?st \<longrightarrow> k = activeSubIndexRef ?st"
    "tracking h subtitles time (?st\<lparr>activeSubRef := found, activeSubIndexRef := k\<rparr>)"
    by blast
  from False s(1) fresh have res: "updateUI h subtitles ?st = Inr (commit ?st (found, k))"
    by (simp add: updateUI_def)
  show ?thesis
  proof (cases "found = activeSubRef ?st")
    case True
    with s(3) have "?st\<lparr>activeSubRef := found, activeSubIndexRef := k\<rparr> = ?st" by simp
    with s(4) have "tracking h subtitles time ?st" by simp
    moreover from True have "commit ?st (found, k) = ?st" by (simp add: commit_def)
    ultimately show ?thesis using res s(2) True by simp
  next
    case False
    then have "commit ?st (found, k)
        = ?st\<lparr>activeSubRef := found, activeSubIndexRef := k, activeSubtitle := found\<rparr>"
      by (simp add: commit_def)
    with res s(2,4) show ?thesis by (simp add: tracking_fields)
  qed
qed

lemma playback_refines:
  assumes "normalized (readback h subtitles)"
    and "tracking h subtitles earlier st"
    and "sorted (earlier # clock)"
  shows "playback h subtitles st clock = Inr (map (referenceScan h subtitles) clock)"
  using assms(2,3)
proof (induction clock arbitrary: earlier st)
  case Nil
  show ?case by simp
next
  case (Cons time later)
  from Cons.prems have "earlier \<le> time" by simp
  from updateUI_refines [OF assms(1) Cons.prems(1) this]
  obtain st' where st': "updateUI h subtitles (st\<lparr>video := Some time\<rparr>) = Inr st'"
    "activeSubRef st' = referenceScan h subtitles time" "tracking h subtitles time st'"
    by blast
  from Cons.prems have "sorted (time # later)" by simp
  with st'(3) have "playback h subtitles st' later = Inr (map (referenceScan h subtitles) later)"
    by (rule Cons.IH)
  with st'(1,2) show ?case by simp
qed




lemmas locator_eval = updateUI_def resetStale_def search_def cacheValid_def containsTime_def
  startIndex_def forwardScan.simps backwardScan.simps element_def commit_def handleSeek_def
  referenceScan_def storeOf_def seg_def

text \<open>
  C4, as claimed: on a normalized list the lookup returns the unique segment whose closed
  interval contains the time. Normalization lets a segment end exactly where the next one
  starts, and the intervals are closed, so at such a boundary two segments contain the
  time and there is no unique one. Here the normalized list holds the segments 0 to 1.5
  and 1.5 to 3: both contain the time 1.5, and the lookup, like the linear scan, returns
  the first of them.
\<close>

theorem shared_boundary_not_unique:
  "normalized (readback trimmedStore [0, 1]) \<and>
   containsTime trimmedStore 1.5 0 \<and> containsTime trimmedStore 1.5 1 \<and> (0 :: ref) \<noteq> 1 \<and>
   playback trimmedStore [0, 1] mounted [1.5] = Inr [Some 0] \<and>
   referenceScan trimmedStore [0, 1] 1.5 = Some 0"
  by (simp add: locator_eval mounted_def trimmedStore_def normalized_def readback_def
      positiveDurations_def)

text \<open>
  C4, amended: on a normalized list (sorted, not overlapping, positive durations), starting
  with cursor and cache unset, the cursor-based lookup returns at every time of a
  monotonically increasing sequence of query times exactly what the linear reference scan
  returns: the first segment of the list whose closed interval contains the time, or none
  when no segment contains it. That segment is the only one containing the time unless the
  time is a boundary shared by two touching segments: any other segment that contains the
  time starts exactly at it, where the returned segment ends.
\<close>

theorem playback_matches_referenceScan:
  assumes "normalized (readback h subtitles)" and "sorted clock"
    and "activeSubRef st = None" and "activeSubIndexRef st = -1"
  shows "playback h subtitles st clock = Inr (map (referenceScan h subtitles) clock) \<and>
         (\<forall>time a. referenceScan h subtitles time = Some a \<longrightarrow>
            a \<in> set subtitles \<and> containsTime h time a \<and>
            (\<exists>i<length subtitles. a = subtitles ! i \<and>
               (\<forall>j<i. \<not> containsTime h time (subtitles ! j))) \<and>
            (\<forall>b\<in>set subtitles. containsTime h time b \<longrightarrow>
               b = a \<or> (time = endTime (h a) \<and> time = startTime (h b)))) \<and>
         (\<forall>time. referenceScan h subtitles time = None \<longrightarrow>
            (\<forall>b\<in>set subtitles. \<not> containsTime h time b))"
proof (intro conjI allI impI)
  show "playback h subtitles st clock = Inr (map (referenceScan h subtitles) clock)"
  proof (cases clock)
    case Nil
    then show ?thesis by simp
  next
    case (Cons time later)
    from assms(3,4) have "tracking h subtitles time st" by (simp add: tracking_def)
    moreover from assms(2) Cons have "sorted (time # clock)" by simp
    ultimately show ?thesis by (rule playback_refines [OF assms(1)])
  qed
next
  fix time a
  assume "referenceScan h subtitles time = Some a"
  then obtain i where i: "i < length subtitles" "containsTime h time (subtitles ! i)"
    "a = subtitles ! i" "\<forall>j<i. \<not> containsTime h time (subtitles ! j)"
    unfolding referenceScan_def find_Some_iff by blast
  then show "a \<in> set subtitles" and "containsTime h time a" by simp_all
  from i show "\<exists>i<length subtitles. a = subtitles ! i \<and>
      (\<forall>j<i. \<not> containsTime h time (subtitles ! j))" by blast
  show "\<forall>b\<in>set subtitles. containsTime h time b \<longrightarrow>
      b = a \<or> (time = endTime (h a) \<and> time = startTime (h b))"
  proof (intro ballI impI)
    fix b
    assume "b \<in> set subtitles" and cb: "containsTime h time b"
    then obtain j where j: "j < length subtitles" "b = subtitles ! j"
      by (auto simp: in_set_conv_nth)
    consider "j < i" | "j = i" | "i < j" by linarith
    then show "b = a \<or> (time = endTime (h a) \<and> time = startTime (h b))"
    proof cases
      case 1
      with i(4) cb j show ?thesis by simp
    next
      case 2
      with i j show ?thesis by simp
    next
      case 3
      from normalized_shared_boundary [OF assms(1) 3 j(1) i(2)] cb j i(3)
      show ?thesis by simp
    qed
  qed
next
  fix time
  assume "referenceScan h subtitles time = None"
  then show "\<forall>b\<in>set subtitles. \<not> containsTime h time b"
    unfolding referenceScan_def find_None_iff by blast
qed

theorem playback_matches_referenceScan_witness:
  "normalized (readback trimmedStore [0, 1]) \<and> sorted [0, 1, 1.5, 1.5, 2, 3, 4 :: real] \<and>
   activeSubRef mounted = None \<and> activeSubIndexRef mounted = -1 \<and>
   playback trimmedStore [0, 1] mounted [0, 1, 1.5, 1.5, 2, 3, 4]
     = Inr [Some 0, Some 0, Some 0, Some 0, Some 1, Some 1, None] \<and>
   referenceScan trimmedStore [0, 1] 1.5 = Some 0 \<and> containsTime trimmedStore 1.5 1"
proof -
  have n: "normalized (readback trimmedStore [0, 1])"
    by (simp add: normalized_def readback_def trimmedStore_def storeOf_def seg_def
        positiveDurations_def)
  have s: "sorted [0, 1, 1.5, 1.5, 2, 3, 4 :: real]" by simp
  have m: "activeSubRef mounted = None" "activeSubIndexRef mounted = -1"
    by (simp_all add: mounted_def)
  have r: "map (referenceScan trimmedStore [0, 1]) [0, 1, 1.5, 1.5, 2, 3, 4]
      = [Some 0, Some 0, Some 0, Some 0, Some 1, Some 1, None]"
    by (simp add: referenceScan_def containsTime_def trimmedStore_def storeOf_def seg_def)
  have c: "containsTime trimmedStore 1.5 1"
    by (simp add: containsTime_def trimmedStore_def storeOf_def seg_def)
  from playback_matches_referenceScan [OF n s m] n s m r c show ?thesis by simp
qed










section \<open>Properties of the target dimensions\<close>

lemma forceEven_even: "even (forceEven n)"
  by (auto simp: forceEven_def)

lemma forceEven_le: "forceEven n \<le> n"
  by (simp add: forceEven_def)

lemma forceEven_nonneg: "0 \<le> n \<Longrightarrow> 0 \<le> forceEven n"
  by (cases "n = 0") (auto simp: forceEven_def)

lemma jsRound_le: "x \<le> real_of_int n \<Longrightarrow> jsRound x \<le> n"
  by (simp add: jsRound_def floor_le_iff)

lemma jsRound_nonneg: "0 \<le> x \<Longrightarrow> 0 \<le> jsRound x"
  by (simp add: jsRound_def)

lemma scaleToFit_width: "fst (scaleToFit (int w) (int h)) \<le> MAX_WIDTH"
proof (cases "int w > MAX_WIDTH \<or> int h > MAX_HEIGHT")
  case False
  then show ?thesis by (simp add: scaleToFit_def)
next
  case scaled: True
  show ?thesis
  proof (cases "h = 0 \<or> real w / real h > 1")
    case True
    with scaled show ?thesis by (auto simp: scaleToFit_def Let_def)
  next
    case False
    then have "\<not> 1 < real w / real h" by blast
    then have "real w / real h \<le> 1" by (simp only: not_less)
    then have "real_of_int MAX_HEIGHT * (real w / real h) \<le> 1080"
      by (simp add: MAX_HEIGHT_def)
    then have "jsRound (real_of_int MAX_HEIGHT * (real w / real h)) \<le> MAX_WIDTH"
      by (intro jsRound_le) (simp add: MAX_WIDTH_def)
    with scaled False show ?thesis by (simp add: scaleToFit_def Let_def)
  qed
qed

lemma scaleToFit_nonneg:
  "0 \<le> fst (scaleToFit (int w) (int h)) \<and> 0 \<le> snd (scaleToFit (int w) (int h))"
  by (auto simp: scaleToFit_def Let_def MAX_WIDTH_def MAX_HEIGHT_def intro!: jsRound_nonneg)

text \<open>The height stays within the bound unless the source is strictly between 1:1 and 16:9.\<close>

lemma scaleToFit_height:
  assumes "w \<le> h \<or> 16 * h \<le> 9 * w"
  shows "snd (scaleToFit (int w) (int h)) \<le> MAX_HEIGHT"
proof (cases "int w > MAX_WIDTH \<or> int h > MAX_HEIGHT")
  case False
  then show ?thesis by (simp add: scaleToFit_def)
next
  case scaled: True
  show ?thesis
  proof (cases "h = 0")
    case True
    with scaled show ?thesis by (simp add: scaleToFit_def MAX_HEIGHT_def)
  next
    case False
    show ?thesis
    proof (cases "real w / real h > 1")
      case wide: True
      with False have "h < w" by simp
      with assms have "16 * h \<le> 9 * w" by simp
      then have "16 * real h \<le> 9 * real w" by (metis of_nat_le_iff of_nat_mult of_nat_numeral)
      moreover from \<open>h < w\<close> have "0 < real w" by simp
      ultimately have "1920 * real h / real w \<le> 1080"
        by (simp add: divide_le_eq)
      then have "real_of_int MAX_WIDTH / (real w / real h) \<le> 1080"
        by (simp add: MAX_WIDTH_def)
      then have "jsRound (real_of_int MAX_WIDTH / (real w / real h)) \<le> MAX_HEIGHT"
        by (intro jsRound_le) (simp add: MAX_HEIGHT_def)
      with scaled False wide show ?thesis by (simp add: scaleToFit_def Let_def)
    next
      case False
      with scaled \<open>h \<noteq> 0\<close> show ?thesis by (simp add: scaleToFit_def Let_def)
    qed
  qed
qed

lemma jsRound_near: "\<bar>real_of_int (jsRound x) - x\<bar> \<le> 1 / 2"
proof -
  have "real_of_int \<lfloor>x + 1 / 2\<rfloor> \<le> x + 1 / 2" "x + 1 / 2 < real_of_int \<lfloor>x + 1 / 2\<rfloor> + 1"
    by linarith+
  then show ?thesis unfolding jsRound_def by linarith
qed

text \<open>
  Where the block scales, one dimension is the bound and the other is the value that keeps
  the ratio of the source, rounded to the nearest integer.
\<close>

lemma scaleToFit_ratio:
  assumes "int w > MAX_WIDTH \<or> int h > MAX_HEIGHT" and "h \<noteq> 0"
  shows "real w / real h > 1 \<Longrightarrow>
           fst (scaleToFit (int w) (int h)) = MAX_WIDTH \<and>
           \<bar>real_of_int (snd (scaleToFit (int w) (int h))) - 1920 * real h / real w\<bar> \<le> 1 / 2"
    and "\<not> real w / real h > 1 \<Longrightarrow>
           snd (scaleToFit (int w) (int h)) = MAX_HEIGHT \<and>
           \<bar>real_of_int (fst (scaleToFit (int w) (int h))) - 1080 * real w / real h\<bar> \<le> 1 / 2"
  using assms jsRound_near [of "1920 / (real w / real h)"] jsRound_near [of "1080 * (real w / real h)"]
  by (simp_all add: scaleToFit_def Let_def MAX_WIDTH_def MAX_HEIGHT_def)

lemma targetDimensions_even:
  "even (fst (targetDimensions w h)) \<and> even (snd (targetDimensions w h))"
  by (simp add: targetDimensions_def forceEven_even case_prod_beta)

lemma targetDimensions_width:
  "0 \<le> fst (targetDimensions w h) \<and> fst (targetDimensions w h) \<le> MAX_WIDTH"
proof -
  have "forceEven (fst (scaleToFit (int w) (int h))) \<le> MAX_WIDTH"
    using forceEven_le scaleToFit_width by (rule order_trans)
  moreover have "0 \<le> forceEven (fst (scaleToFit (int w) (int h)))"
    by (intro forceEven_nonneg) (simp add: scaleToFit_nonneg)
  ultimately show ?thesis by (simp add: targetDimensions_def case_prod_beta)
qed

lemma targetDimensions_height:
  assumes "w \<le> h \<or> 16 * h \<le> 9 * w"
  shows "snd (targetDimensions w h) \<le> MAX_HEIGHT"
proof -
  have "forceEven (snd (scaleToFit (int w) (int h))) \<le> MAX_HEIGHT"
    using forceEven_le scaleToFit_height [OF assms] by (rule order_trans)
  then show ?thesis by (simp add: targetDimensions_def case_prod_beta)
qed

text \<open>
  C2. The claim: for every source video the target dimensions keep the aspect ratio of
  the source, exceed the bound of 1920 by 1080 in neither dimension, and are both even.
  Both dimensions are even and the width is at most 1920 on every input, the ratio is
  kept up to the rounding to integers, and the height is at most 1080 when the source is
  at least as high as wide or at least 16:9 wide (the lemmas above). For a source larger than the bound whose ratio lies between 1:1 and
  16:9 the code sets the width to 1920 because the ratio is above 1, and the height that
  keeps the ratio is above 1080: a 2560 by 1920 source gives 1920 by 1440.
\<close>

theorem targetDimensions_exceeds_height:
  "targetDimensions 2560 1920 = (1920, 1440) \<and>
   \<not> snd (targetDimensions 2560 1920) \<le> MAX_HEIGHT"
  by (simp add: targetDimensions_def scaleToFit_def forceEven_def jsRound_def MAX_WIDTH_def
      MAX_HEIGHT_def)

section \<open>Properties of the export cache and of the exits of an export\<close>

lemmas export_eval = handleExportBurned_def encode_def currentKey_def pickMime_def preferredMimes_def
  cleanup_def cancelExport_def modifyAt_def releaseVideo_def closeAudio_def stopRecorder_def
  detachAndStop_def recorder_onstop_def recorder_onerror_def recorder_ondataavailable_def
  fireStop_def fireError_def drawFrameAtEnd_def newBlob_def exportFileName_def stripExtension_def
  targetDimensions_def scaleToFit_def forceEven_def MAX_WIDTH_def MAX_HEIGHT_def Let_def





lemma cleanup_fields:
  "cachedExportRef (cleanup st) = cachedExportRef st"
  "recorders (cleanup st) = recorders st"
  "videoDataUrl (cleanup st) = videoDataUrl st"
  "currentKey url (cleanup st) = currentKey url st"
  "isExporting (cleanup st) = False"
  "exportResult (cleanup st) = exportResult st"
  "downloads (cleanup st) = downloads st"
  "mediaRecorderRef (cleanup st) = mediaRecorderRef st"
  by (simp_all add: cleanup_def Let_def currentKey_def split: option.splits)

lemma fireStop_put:
  assumes "r < length (recorders st)" and "onstop (recorders st ! r)"
  shows "cachedExportRef (fireStop r st)
           = Some \<lparr>key = jobKey (recorders st ! r),
                   blob = newBlob (chunks (recorders st ! r)) (recMimeType (recorders st ! r)),
                   fileName = exportFileName (jobFile (recorders st ! r)) (jobFormat (recorders st ! r))\<rparr>"
    and "isExporting (fireStop r st) = False"
    and "videoDataUrl (fireStop r st) = videoDataUrl st"
    and "currentKey url (fireStop r st) = currentKey url st"
    and "recorders (fireStop r st) = recorders st"
    and "exportResult (fireStop r st) = Some (True, ''export succeeded'')"
proof -
  have "currentKey url (st\<lparr>cachedExportRef := c, exportResult := e, downloads := d\<rparr>)
          = currentKey url st" for c e d
    by (simp add: currentKey_def)
  with assms show "currentKey url (fireStop r st) = currentKey url st"
    by (simp add: fireStop_def recorder_onstop_def Let_def cleanup_fields)
qed (use assms in \<open>simp_all add: fireStop_def recorder_onstop_def Let_def cleanup_fields\<close>)


lemma recordingApp_fields:
  "recorders recordingApp
     = [\<lparr>recState = recording, recMimeType = ''video/webm;codecs=vp9,opus'',
         chunks = [chunk [26, 69]], jobKey = currentKey ''blob:1'' idleApp,
         jobFile = Some ''talk.mp4'', jobFormat = mp4, onstop = True, onerror = True\<rparr>]"
  "videoDataUrl recordingApp = Some ''blob:1''"
  "currentKey url recordingApp = currentKey url idleApp"
  "offlineVideoRef recordingApp = Some 0"
  "exportAudioCtxRef recordingApp = Some 0"
  "mediaRecorderRef recordingApp = Some 0"
  "videoElements recordingApp = [\<lparr>isPaused = False, src = Some ''blob:1'', inBody = True\<rparr>]"
  "audioContexts recordingApp = [\<lparr>isClosed = False\<rparr>]"
  "cachedExportRef recordingApp = None"
  "exportResult recordingApp = None"
  "isExporting recordingApp"
  "downloads recordingApp = []"
  by (simp_all add: recordingApp_def idleApp_def webmOnly_def chunk_def export_eval)


text \<open>What the two exits do on every state.\<close>

lemma cancelExport_releases:
  "cachedExportRef (cancelExport st) = cachedExportRef st"
  "exportResult (cancelExport st) = exportResult st"
  "isExporting (cancelExport st) = False"
  "offlineVideoRef (cancelExport st) = None"
  "exportAudioCtxRef (cancelExport st) = None"
  "mediaRecorderRef st = Some r \<Longrightarrow> r < length (recorders st) \<Longrightarrow>
     recState (recorders (cancelExport st) ! r) = inactive \<and>
     \<not> onstop (recorders (cancelExport st) ! r) \<and> \<not> onerror (recorders (cancelExport st) ! r)"
  "offlineVideoRef st = Some v \<Longrightarrow> v < length (videoElements st) \<Longrightarrow>
     videoElements (cancelExport st) ! v = \<lparr>isPaused = True, src = None, inBody = False\<rparr>"
  "exportAudioCtxRef st = Some a \<Longrightarrow> a < length (audioContexts st) \<Longrightarrow>
     isClosed (audioContexts (cancelExport st) ! a)"
  by (simp_all add: cancelExport_def Let_def modifyAt_def detachAndStop_def stopRecorder_def
      releaseVideo_def closeAudio_def split: option.splits)

lemma recorder_onerror_releases:
  "cachedExportRef (recorder_onerror st) = cachedExportRef st"
  "exportResult (recorder_onerror st) = Some (False, ''export failed'')"
  "isExporting (recorder_onerror st) = False"
  "recorders (recorder_onerror st) = recorders st"
  "offlineVideoRef st = Some v \<Longrightarrow> v < length (videoElements st) \<Longrightarrow>
     videoElements (recorder_onerror st) ! v = \<lparr>isPaused = True, src = None, inBody = False\<rparr>"
  "exportAudioCtxRef st = Some a \<Longrightarrow> a < length (audioContexts st) \<Longrightarrow>
     isClosed (audioContexts (recorder_onerror st) ! a)"
  by (simp_all add: recorder_onerror_def cleanup_def Let_def modifyAt_def
      releaseVideo_def closeAudio_def split: option.splits)

text \<open>
  C8. The claim: on an encoder error in the middle of a recording, and equally on
  cancellation, the cache entry is left unchanged, every capture resource (offline video
  element, audio context, recorder) is released, and only the error is reported as a
  failure. Cancellation does so: \<^verbatim>\<open>cancelExport\<close> detaches \<^verbatim>\<open>onstop\<close> and
  \<^verbatim>\<open>onerror\<close> and stops the recorder. The error path does not: \<^verbatim>\<open>onerror\<close> runs
  \<^verbatim>\<open>cleanup\<close>, which releases the video element and the audio context and writes
  nothing to the recorder, so the code neither stops it nor detaches \<^verbatim>\<open>onstop\<close>; the
  \<^verbatim>\<open>stop\<close> event that follows the error then runs \<^verbatim>\<open>onstop\<close>, which stores the
  partial blob in the cache and reports success. After a cancellation the same event does
  nothing.
\<close>

theorem error_leaves_recorder_attached:
  "cachedExportRef recordingApp = None \<and>
   cachedExportRef (fireError 0 recordingApp) = None \<and>
   exportResult (fireError 0 recordingApp) = Some (False, ''export failed'') \<and>
   videoElements (fireError 0 recordingApp) = [\<lparr>isPaused = True, src = None, inBody = False\<rparr>] \<and>
   audioContexts (fireError 0 recordingApp) = [\<lparr>isClosed = True\<rparr>] \<and>
   recorders (fireError 0 recordingApp) = recorders recordingApp \<and>
   onstop (recorders (fireError 0 recordingApp) ! 0) \<and>
   cachedExportRef (fireStop 0 (fireError 0 recordingApp))
     = Some \<lparr>key = currentKey ''blob:1'' idleApp, blob = chunk [26, 69],
             fileName = ''talk_subs.mp4''\<rparr> \<and>
   exportResult (fireStop 0 (fireError 0 recordingApp)) = Some (True, ''export succeeded'') \<and>
   cachedExportRef (cancelExport recordingApp) = None \<and>
   exportResult (cancelExport recordingApp) = None \<and>
   recState (recorders (cancelExport recordingApp) ! 0) = inactive \<and>
   \<not> onstop (recorders (cancelExport recordingApp) ! 0) \<and>
   fireStop 0 (cancelExport recordingApp) = cancelExport recordingApp"
proof -
  have made: "newBlob [chunk [26, 69]] ''video/webm;codecs=vp9,opus'' = chunk [26, 69]"
    "exportFileName (Some ''talk.mp4'') mp4 = ''talk_subs.mp4''"
    by (simp_all add: newBlob_def chunk_def exportFileName_def stripExtension_def)
  have err: "fireError 0 recordingApp = recorder_onerror recordingApp"
    by (simp add: fireError_def recordingApp_fields)
  have after: "recorders (fireError 0 recordingApp) = recorders recordingApp"
    "cachedExportRef (fireError 0 recordingApp) = None"
    "exportResult (fireError 0 recordingApp) = Some (False, ''export failed'')"
    "videoElements (fireError 0 recordingApp) = [\<lparr>isPaused = True, src = None, inBody = False\<rparr>]"
    "audioContexts (fireError 0 recordingApp) = [\<lparr>isClosed = True\<rparr>]"
    by (simp_all add: err recorder_onerror_def cleanup_def Let_def modifyAt_def releaseVideo_def
        closeAudio_def recordingApp_fields)
  have attached: "0 < length (recorders (fireError 0 recordingApp))"
    "onstop (recorders (fireError 0 recordingApp) ! 0)"
    by (simp_all add: after recordingApp_fields)
  from attached(1,2) have late:
    "cachedExportRef (fireStop 0 (fireError 0 recordingApp))
       = Some \<lparr>key = currentKey ''blob:1'' idleApp, blob = chunk [26, 69],
               fileName = ''talk_subs.mp4''\<rparr>"
    "exportResult (fireStop 0 (fireError 0 recordingApp)) = Some (True, ''export succeeded'')"
    by (simp_all add: fireStop_put after recordingApp_fields made)
  have cancelled: "cachedExportRef (cancelExport recordingApp) = None"
    "exportResult (cancelExport recordingApp) = None"
    "recState (recorders (cancelExport recordingApp) ! 0) = inactive"
    "\<not> onstop (recorders (cancelExport recordingApp) ! 0)"
    "length (recorders (cancelExport recordingApp)) = 1"
    by (simp_all add: cancelExport_def Let_def modifyAt_def detachAndStop_def stopRecorder_def
        recordingApp_fields)
  then have "fireStop 0 (cancelExport recordingApp) = cancelExport recordingApp"
    by (simp add: fireStop_def)
  with after attached late cancelled show ?thesis
    by (simp add: recordingApp_fields)
qed

section \<open>Writing a caption file and reading it back\<close>

lemma digit_cases: "k < 10 \<Longrightarrow> k \<in> {0, 1, 2, 3, 4, 5, 6, 7, 8, 9 :: nat}"
  by auto

lemma digitVal_digitChar: "digitVal (digitChar d) = Some (d mod 10)"
proof -
  have "d mod 10 < 10" by simp
  then have "d mod 10 \<in> {0, 1, 2, 3, 4, 5, 6, 7, 8, 9 :: nat}" by (rule digit_cases)
  then show ?thesis
    by (auto simp: digitChar_def digitVal_def)
qed

lemma digitChar_plain:
  "digitChar d \<noteq> newline" "newline \<noteq> digitChar d"
  "digitChar d \<noteq> CHR ''.''" "CHR ''.'' \<noteq> digitChar d"
proof -
  have "d mod 10 < 10" by simp
  then have "d mod 10 \<in> {0, 1, 2, 3, 4, 5, 6, 7, 8, 9 :: nat}" by (rule digit_cases)
  then show "digitChar d \<noteq> newline" "digitChar d \<noteq> CHR ''.''"
    by (auto simp: digitChar_def newline_def)
  then show "newline \<noteq> digitChar d" "CHR ''.'' \<noteq> digitChar d"
    by simp_all
qed

lemma parseNat_single: "parseNat [digitChar d] = Some (d mod 10)"
  by (simp add: parseNat_def digitVal_digitChar)

lemma parseNat_snoc:
  assumes "parseNat ds = Some a"
  shows "parseNat (ds @ [digitChar d]) = Some (10 * a + d mod 10)"
proof -
  from assms have "ds \<noteq> []" by (auto simp: parseNat_def)
  with assms show ?thesis
    by (simp add: parseNat_def digitVal_digitChar)
qed

lemma parseNat_showNat: "parseNat (showNat n) = Some n"
proof (induction n rule: showNat.induct)
  case (1 n)
  show ?case
  proof (cases "n < 10")
    case True
    then show ?thesis
      by (subst showNat.simps) (simp add: parseNat_single)
  next
    case False
    with 1 have "parseNat (showNat (n div 10)) = Some (n div 10)" by simp
    then have "parseNat (showNat (n div 10) @ [digitChar n]) = Some (10 * (n div 10) + n mod 10)"
      by (rule parseNat_snoc)
    with False show ?thesis
      by (subst showNat.simps) simp
  qed
qed

lemma parseNat_pad2: "n < 100 \<Longrightarrow> parseNat (pad2 n) = Some n"
proof -
  assume "n < 100"
  then have small: "n div 10 mod 10 = n div 10" by simp
  have "parseNat ([digitChar (n div 10)] @ [digitChar n]) = Some (10 * (n div 10 mod 10) + n mod 10)"
    by (intro parseNat_snoc parseNat_single)
  with small show ?thesis by (simp add: pad2_def)
qed

lemma parseNat_pad3: "n < 1000 \<Longrightarrow> parseNat (pad3 n) = Some n"
proof -
  assume "n < 1000"
  then have small: "n div 100 mod 10 = n div 100" by simp
  have "parseNat ([digitChar (n div 100)] @ [digitChar (n div 10)])
          = Some (10 * (n div 100 mod 10) + n div 10 mod 10)"
    by (intro parseNat_snoc parseNat_single)
  then have "parseNat (([digitChar (n div 100)] @ [digitChar (n div 10)]) @ [digitChar n])
          = Some (10 * (10 * (n div 100 mod 10) + n div 10 mod 10) + n mod 10)"
    by (rule parseNat_snoc)
  moreover have "10 * (10 * (n div 100) + n div 10 mod 10) + n mod 10 = n"
  proof -
    have "n div 100 = n div 10 div 10" by (simp add: div_mult2_eq)
    then have "10 * (n div 100) + n div 10 mod 10 = n div 10" by simp
    then show ?thesis by simp
  qed
  ultimately show ?thesis using small by (simp add: pad3_def)
qed

lemma oneLine_showNat: "oneLine (showNat n)"
proof (induction n rule: showNat.induct)
  case (1 n)
  show ?case
  proof (cases "n < 10")
    case True
    then show ?thesis
      by (subst showNat.simps) (simp add: oneLine_def digitChar_plain)
  next
    case False
    with 1 have "oneLine (showNat (n div 10))" by simp
    with False show ?thesis
      by (subst showNat.simps) (simp add: oneLine_def digitChar_plain)
  qed
qed

lemma splitLines_nonempty: "splitLines cs \<noteq> []"
  by (induction cs) (auto split: list.splits)

lemma splitLines_line:
  "oneLine l \<Longrightarrow> splitLines (l @ newline # cs) = l # splitLines cs"
proof (induction l)
  case Nil
  then show ?case by simp
next
  case (Cons c l)
  then show ?case
    by (cases "splitLines cs") (auto simp: oneLine_def splitLines_nonempty)
qed


lemma replaceFirst_timeOfDay:
  "replaceFirst (CHR ''.'') (CHR '','') (timeOfDay tv) = stamp (nat (tv mod 86400000))"
  by (simp add: timeOfDay_def stamp_def Let_def pad2_def pad3_def digitChar_plain)

lemma clock_fields:
  fixes ms :: nat
  assumes "ms < 86400000"
  shows "ms div 3600000 < 100"
    and "((ms div 3600000 * 60 + ms div 60000 mod 60) * 60 + ms div 1000 mod 60) * 1000
           + ms mod 1000 = ms"
proof -
  from assms show "ms div 3600000 < 100" by simp
  let ?q = "ms div 1000"
  have a: "ms div 60000 = ?q div 60" by (simp add: div_mult2_eq)
  have b: "ms div 3600000 = ?q div 60 div 60" by (simp add: div_mult2_eq)
  have "(?q div 60 div 60 * 60 + ?q div 60 mod 60) * 60 + ?q mod 60 = ?q" by simp
  then show "((ms div 3600000 * 60 + ms div 60000 mod 60) * 60 + ms div 1000 mod 60) * 1000
           + ms mod 1000 = ms"
    by (simp only: a b) simp
qed

lemma parseTimestamp_stamp:
  assumes "ms < 86400000"
  shows "parseTimestamp (stamp ms) = Some (real ms / 1000)"
proof -
  let ?s = "stamp ms"
  have shape: "length ?s = 12" "?s ! 2 = CHR '':''" "?s ! 5 = CHR '':''" "?s ! 8 = CHR '',''"
    "take 2 ?s = pad2 (ms div 3600000)" "take 2 (drop 3 ?s) = pad2 (ms div 60000 mod 60)"
    "take 2 (drop 6 ?s) = pad2 (ms div 1000 mod 60)" "drop 9 ?s = pad3 (ms mod 1000)"
    by (simp_all add: stamp_def pad2_def pad3_def)
  have fields: "parseNat (pad2 (ms div 3600000)) = Some (ms div 3600000)"
    "parseNat (pad2 (ms div 60000 mod 60)) = Some (ms div 60000 mod 60)"
    "parseNat (pad2 (ms div 1000 mod 60)) = Some (ms div 1000 mod 60)"
    "parseNat (pad3 (ms mod 1000)) = Some (ms mod 1000)"
    using clock_fields(1) [OF assms] by (simp_all add: parseNat_pad2 parseNat_pad3)
  have val: "real (((ms div 3600000 * 60 + ms div 60000 mod 60) * 60 + ms div 1000 mod 60) * 1000
           + ms mod 1000) = real ms"
    by (simp only: clock_fields(2) [OF assms])
  have "parseTimestamp ?s
      = Some (real (((ms div 3600000 * 60 + ms div 60000 mod 60) * 60 + ms div 1000 mod 60) * 1000
           + ms mod 1000) / 1000)"
    unfolding parseTimestamp_def shape fields by simp
  then show ?thesis by (simp only: val)
qed

lemma newline_punctuation:
  "newline \<noteq> CHR '':''" "newline \<noteq> CHR '',''" "newline \<noteq> CHR '' ''"
  "newline \<noteq> CHR ''-''" "newline \<noteq> CHR ''>''"
  by (simp_all add: newline_def)

lemma oneLine_stamp: "oneLine (stamp ms)"
  by (simp add: oneLine_def stamp_def pad2_def pad3_def digitChar_plain newline_punctuation)

lemma parseTiming_stamps:
  assumes "a < 86400000" and "b < 86400000"
  shows "parseTiming (stamp a @ '' --> '' @ stamp b) = Some (real a / 1000, real b / 1000)"
proof -
  have len: "length (stamp a) = 12" "length (stamp b) = 12"
    by (simp_all add: stamp_def pad2_def pad3_def)
  then have "length (stamp a @ '' --> '' @ stamp b) = 29"
    "take 5 (drop 12 (stamp a @ '' --> '' @ stamp b)) = '' --> ''"
    "take 12 (stamp a @ '' --> '' @ stamp b) = stamp a"
    "drop 17 (stamp a @ '' --> '' @ stamp b) = stamp b"
    by simp_all
  with assms show ?thesis
    by (simp add: parseTiming_def parseTimestamp_stamp)
qed

lemma formatSrtTime_withinDay:
  assumes "withinDay s"
  shows "formatSrtTime s = Inr (stamp (nat \<lfloor>s * 1000\<rfloor>))"
    and "nat \<lfloor>s * 1000\<rfloor> < 86400000"
    and "\<bar>real (nat \<lfloor>s * 1000\<rfloor>) / 1000 - s\<bar> < 1 / 1000"
proof -
  from assms have range: "0 \<le> s * 1000" "s * 1000 < 86400000"
    by (simp_all add: withinDay_def)
  then have fl: "0 \<le> \<lfloor>s * 1000\<rfloor>" "\<lfloor>s * 1000\<rfloor> < 86400000"
    by (simp_all add: floor_less_iff)
  then show "nat \<lfloor>s * 1000\<rfloor> < 86400000" by linarith
  from range have tr: "truncate (s * 1000) = \<lfloor>s * 1000\<rfloor>" by (simp add: truncate_def)
  from fl have "\<lfloor>s * 1000\<rfloor> mod 86400000 = \<lfloor>s * 1000\<rfloor>" by simp
  with fl tr show "formatSrtTime s = Inr (stamp (nat \<lfloor>s * 1000\<rfloor>))"
    by (simp add: formatSrtTime_def Let_def replaceFirst_timeOfDay)
  from fl have "real (nat \<lfloor>s * 1000\<rfloor>) = of_int \<lfloor>s * 1000\<rfloor>" by simp
  moreover have "of_int \<lfloor>s * 1000\<rfloor> \<le> s * 1000" "s * 1000 < of_int \<lfloor>s * 1000\<rfloor> + 1"
    by linarith+
  ultimately show "\<bar>real (nat \<lfloor>s * 1000\<rfloor>) / 1000 - s\<bar> < 1 / 1000"
    by (simp add: abs_less_iff field_simps)
qed


lemma srtEntry_writable:
  assumes "writable sub"
  shows "srtEntry index sub
     = Inr (showNat (index + 1) @ [newline]
            @ stamp (nat \<lfloor>startTime sub * 1000\<rfloor>) @ '' --> ''
            @ stamp (nat \<lfloor>endTime sub * 1000\<rfloor>) @ [newline]
            @ english sub @ [newline] @ chinese sub @ [newline, newline])"
  using assms by (simp add: srtEntry_def writable_def formatSrtTime_withinDay(1))

lemma splitLines_entry:
  assumes "oneLine l1" and "oneLine l2" and "oneLine l3" and "oneLine l4"
  shows "splitLines ((l1 @ [newline] @ l2 @ [newline] @ l3 @ [newline] @ l4 @ [newline, newline]) @ rest)
           = l1 # l2 # l3 # l4 # [] # splitLines rest"
proof -
  have "splitLines ((l1 @ [newline] @ l2 @ [newline] @ l3 @ [newline] @ l4 @ [newline, newline]) @ rest)
      = splitLines (l1 @ newline # (l2 @ newline # (l3 @ newline # (l4 @ newline # (newline # rest)))))"
    by simp
  also have "\<dots> = l1 # l2 # l3 # l4 # splitLines (newline # rest)"
    by (simp only: splitLines_line [OF assms(1)] splitLines_line [OF assms(2)]
        splitLines_line [OF assms(3)] splitLines_line [OF assms(4)])
  finally show ?thesis by simp
qed

lemma oneLine_timing: "oneLine (stamp a @ '' --> '' @ stamp b)"
  using oneLine_stamp [of a] oneLine_stamp [of b]
  by (simp add: oneLine_def newline_punctuation)

lemma round_trip_from:
  assumes "list_all writable subs"
  shows "\<exists>content parsed. srtFrom index subs = Inr content \<and>
           parseEntries (Suc index) (splitLines content) = Some parsed \<and>
           list_all2 sameCaption subs parsed"
  using assms
proof (induction subs arbitrary: index)
  case Nil
  show ?case by simp
next
  case (Cons sub rest)
  from Cons.prems have w: "writable sub" and "list_all writable rest" by simp_all
  from Cons.IH [OF this(2), of "Suc index"]
  obtain others parsed where rest: "srtFrom (Suc index) rest = Inr others"
    "parseEntries (Suc (Suc index)) (splitLines others) = Some parsed"
    "list_all2 sameCaption rest parsed"
    by blast
  let ?a = "nat \<lfloor>startTime sub * 1000\<rfloor>" and ?b = "nat \<lfloor>endTime sub * 1000\<rfloor>"
  let ?entry = "showNat (index + 1) @ [newline] @ (stamp ?a @ '' --> '' @ stamp ?b) @ [newline]
            @ english sub @ [newline] @ chinese sub @ [newline, newline]"
  let ?read = "\<lparr>startTime = real ?a / 1000, endTime = real ?b / 1000, english = english sub,
                chinese = chinese sub\<rparr>"
  from w have day: "withinDay (startTime sub)" "withinDay (endTime sub)"
    and single: "oneLine (english sub)" "oneLine (chinese sub)"
    by (simp_all add: writable_def)
  from w rest(1) have written: "srtFrom index (sub # rest) = Inr (?entry @ others)"
    by (simp add: srtEntry_writable)
  have "splitLines (?entry @ others)
      = showNat (index + 1) # (stamp ?a @ '' --> '' @ stamp ?b) # english sub # chinese sub # []
        # splitLines others"
    using oneLine_showNat oneLine_timing single by (rule splitLines_entry)
  moreover have "parseTiming (stamp ?a @ '' --> '' @ stamp ?b) = Some (real ?a / 1000, real ?b / 1000)"
    using formatSrtTime_withinDay(2) [OF day(1)] formatSrtTime_withinDay(2) [OF day(2)]
    by (rule parseTiming_stamps)
  ultimately have "parseEntries (Suc index) (splitLines (?entry @ others)) = Some (?read # parsed)"
    using rest(2) by (simp add: parseNat_showNat)
  moreover have "sameCaption sub ?read"
    using formatSrtTime_withinDay(3) [OF day(1)] formatSrtTime_withinDay(3) [OF day(2)]
    by (simp add: sameCaption_def)
  ultimately show ?case using written rest(3) by simp
qed

text \<open>
  C7, amended: for every non-empty segment list whose start and end times lie within a day
  (from 0 up to, not including, 86400 seconds) and whose texts hold no line break,
  \<^verbatim>\<open>downloadSRT\<close> writes a file, and reading the file back yields as many segments,
  each with start and end within one millisecond of the original (the writer truncates to
  whole milliseconds) and with identical text fields.
\<close>

theorem srt_round_trip:
  assumes "subtitles \<noteq> []" and "list_all writable subtitles"
  shows "\<exists>content parsed.
           downloadSRT file subtitles = Inr (Some (content, srtFileName file)) \<and>
           parseSRT content = Some parsed \<and> list_all2 sameCaption subtitles parsed"
proof -
  from round_trip_from [OF assms(2), of 0]
  obtain content parsed where "srtFrom 0 subtitles = Inr content"
    "parseEntries (Suc 0) (splitLines content) = Some parsed"
    "list_all2 sameCaption subtitles parsed"
    by blast
  with assms(1) show ?thesis by (auto simp: downloadSRT_def parseSRT_def)
qed

lemmas srt_eval = downloadSRT_def srtEntry_def formatSrtTime_def truncate_def timeOfDay_def
  pad2_def pad3_def showNat.simps digitChar_def srtFileName_def stripExtension_def seg_def
  newline_def Let_def

lemmas srt_read = parseSRT_def parseTiming_def parseTimestamp_def parseNat_def digitVal_def
  newline_def seg_def

text \<open>
  C7, as claimed: every segment list written to the caption file and read back gives the
  original times within 1 ms and identical texts. The writer keeps the time of day only:
  a segment from 90000 s to 90001 s and one from 3600 s to 3601 s are written to the same
  file, which reads back as the latter, so no reader recovers both. A text with a line
  break is written as two lines, and the file no longer has the shape of an entry. For the
  empty list nothing is written.
\<close>

theorem srt_day_and_line_breaks:
  "downloadSRT None [seg 90000 90001 ''A'' ''a'']
     = Inr (Some (''1\<newline>01:00:00,000 --> 01:00:01,000\<newline>A\<newline>a\<newline>\<newline>'', ''subtitles.srt'')) \<and>
   downloadSRT None [seg 3600 3601 ''A'' ''a'']
     = Inr (Some (''1\<newline>01:00:00,000 --> 01:00:01,000\<newline>A\<newline>a\<newline>\<newline>'', ''subtitles.srt'')) \<and>
   parseSRT ''1\<newline>01:00:00,000 --> 01:00:01,000\<newline>A\<newline>a\<newline>\<newline>''
     = Some [seg 3600 3601 ''A'' ''a''] \<and>
   \<not> sameCaption (seg 90000 90001 ''A'' ''a'') (seg 3600 3601 ''A'' ''a'') \<and>
   downloadSRT None [seg 0 1 ''A\<newline>B'' ''a'']
     = Inr (Some (''1\<newline>00:00:00,000 --> 00:00:01,000\<newline>A\<newline>B\<newline>a\<newline>\<newline>'', ''subtitles.srt'')) \<and>
   parseSRT ''1\<newline>00:00:00,000 --> 00:00:01,000\<newline>A\<newline>B\<newline>a\<newline>\<newline>'' = None \<and>
   downloadSRT None [] = Inr None"
proof -
  have "downloadSRT None [seg 90000 90001 ''A'' ''a'']
     = Inr (Some (''1\<newline>01:00:00,000 --> 01:00:01,000\<newline>A\<newline>a\<newline>\<newline>'', ''subtitles.srt''))"
    by (simp add: srt_eval)
  moreover have "downloadSRT None [seg 3600 3601 ''A'' ''a'']
     = Inr (Some (''1\<newline>01:00:00,000 --> 01:00:01,000\<newline>A\<newline>a\<newline>\<newline>'', ''subtitles.srt''))"
    by (simp add: srt_eval)
  moreover have "parseSRT ''1\<newline>01:00:00,000 --> 01:00:01,000\<newline>A\<newline>a\<newline>\<newline>''
     = Some [seg 3600 3601 ''A'' ''a'']"
    by (simp add: srt_read)
  moreover have "\<not> sameCaption (seg 90000 90001 ''A'' ''a'') (seg 3600 3601 ''A'' ''a'')"
    by (simp add: sameCaption_def seg_def)
  moreover have "downloadSRT None [seg 0 1 ''A\<newline>B'' ''a'']
     = Inr (Some (''1\<newline>00:00:00,000 --> 00:00:01,000\<newline>A\<newline>B\<newline>a\<newline>\<newline>'', ''subtitles.srt''))"
    by (simp add: srt_eval)
  moreover have "parseSRT ''1\<newline>00:00:00,000 --> 00:00:01,000\<newline>A\<newline>B\<newline>a\<newline>\<newline>'' = None"
    by (simp add: srt_read)
  moreover have "downloadSRT None [] = Inr None"
    by (simp add: downloadSRT_def)
  ultimately show ?thesis by blast
qed


theorem srt_round_trip_witness:
  "twoCaptions \<noteq> [] \<and> list_all writable twoCaptions \<and>
   downloadSRT (Some ''talk.mp4'') twoCaptions = Inr (Some (twoCaptionsFile, ''talk.srt'')) \<and>
   parseSRT twoCaptionsFile = Some [seg 0 1.5 ''Hello there'' ''ni hao'', seg 1.5 3.062 ''B'' ''b''] \<and>
   list_all2 sameCaption twoCaptions [seg 0 1.5 ''Hello there'' ''ni hao'', seg 1.5 3.062 ''B'' ''b'']"
proof -
  have ne: "twoCaptions \<noteq> []" by (simp add: twoCaptions_def)
  have wr: "list_all writable twoCaptions"
    by (simp add: twoCaptions_def writable_def withinDay_def oneLine_def seg_def newline_def)
  have written: "downloadSRT (Some ''talk.mp4'') twoCaptions
      = Inr (Some (twoCaptionsFile, ''talk.srt''))"
    by (simp add: twoCaptions_def twoCaptionsFile_def srt_eval)
  have parsed: "parseSRT twoCaptionsFile
      = Some [seg 0 1.5 ''Hello there'' ''ni hao'', seg 1.5 3.062 ''B'' ''b'']"
    by (simp add: twoCaptionsFile_def srt_read)
  from srt_round_trip [OF ne wr, of "Some ''talk.mp4''"] written parsed
  have "list_all2 sameCaption twoCaptions
      [seg 0 1.5 ''Hello there'' ''ni hao'', seg 1.5 3.062 ''B'' ''b'']"
    by auto
  with ne wr written parsed show ?thesis by simp
qed

section \<open>Properties of the key of the export cache\<close>

text \<open>
  The quoted text determines the string: reading it back gives the string and the text that
  follows its closing quote.
\<close>

lemma hex_cases: "k < 16 \<Longrightarrow> k \<in> {0, 1, 2, 3, 4, 5, 6, 7, 8, 9, 10, 11, 12, 13, 14, 15 :: nat}"
  unfolding insert_iff empty_iff by presburger

lemma hexVal_hexDigit: "hexVal (hexDigit d) = d mod 16"
proof -
  have "d mod 16 < 16" by simp
  then have "d mod 16 \<in> {0, 1, 2, 3, 4, 5, 6, 7, 8, 9, 10, 11, 12, 13, 14, 15 :: nat}"
    by (rule hex_cases)
  then show ?thesis
    by (auto simp: hexDigit_def hexVal_def)
qed

lemma unquote_escapeChar:
  "unquote (escapeChar c @ rest)
     = (case unquote rest of None \<Rightarrow> None | Some (s, r) \<Rightarrow> Some (c # s, r))"
proof -
  consider (named) "c \<in> {CHR 0x22, CHR 0x5C, CHR 0x08, CHR 0x09, CHR 0x0A, CHR 0x0C, CHR 0x0D}"
    | (control) "c \<notin> {CHR 0x22, CHR 0x5C, CHR 0x08, CHR 0x09, CHR 0x0A, CHR 0x0C, CHR 0x0D}"
        "(of_char c :: nat) < 32"
    | (plain) "c \<notin> {CHR 0x22, CHR 0x5C, CHR 0x08, CHR 0x09, CHR 0x0A, CHR 0x0C, CHR 0x0D}"
        "\<not> (of_char c :: nat) < 32"
    by blast
  then show ?thesis
  proof cases
    case named
    then show ?thesis
      by (auto simp: escapeChar_def unescape_def split: option.splits)
  next
    case control
    let ?n = "of_char c :: nat"
    from control(2) have "16 * (?n div 16 mod 16) + ?n mod 16 = ?n" by simp
    then have "char_of (16 * hexVal (hexDigit (?n div 16)) + hexVal (hexDigit ?n)) = c"
      by (simp add: hexVal_hexDigit)
    with control show ?thesis
      by (simp add: escapeChar_def split: option.splits)
  next
    case plain
    then show ?thesis
      by (simp add: escapeChar_def split: option.splits)
  qed
qed

lemma unquote_escaped:
  "unquote (concat (map escapeChar s) @ CHR 0x22 # rest) = Some (s, rest)"
  by (induction s) (simp_all add: unquote_escapeChar)

lemma quoteJSONString_determines:
  assumes "quoteJSONString s @ r = quoteJSONString s' @ r'"
  shows "s = s' \<and> r = r'"
proof -
  from assms have "concat (map escapeChar s) @ CHR 0x22 # r
      = concat (map escapeChar s') @ CHR 0x22 # r'"
    by (simp add: quoteJSONString_def)
  then have "unquote (concat (map escapeChar s) @ CHR 0x22 # r)
      = unquote (concat (map escapeChar s') @ CHR 0x22 # r')"
    by simp
  then show ?thesis by (simp add: unquote_escaped)
qed

lemma quoteJSONString_eq [simp]:
  "quoteJSONString s @ r = quoteJSONString s' @ r' \<longleftrightarrow> s = s' \<and> r = r'"
  using quoteJSONString_determines by blast

lemma quoteJSONString_injective [simp]: "quoteJSONString s = quoteJSONString s' \<longleftrightarrow> s = s'"
  using quoteJSONString_determines [of s "[]" s' "[]"] by auto

text \<open>
  The decimal text of a whole number holds digits and a sign only, and determines the
  number.
\<close>

lemma showNat_within:
  assumes "\<And>d. digitChar d \<in> D"
  shows "set (showNat n) \<subseteq> D"
proof (induction n rule: showNat.induct)
  case (1 n)
  show ?case
  proof (cases "n < 10")
    case True
    with assms show ?thesis by (subst showNat.simps) simp
  next
    case False
    with 1 assms show ?thesis by (subst showNat.simps) simp
  qed
qed

lemma digitChar_symbols:
  "digitChar d \<noteq> CHR '',''" "digitChar d \<noteq> CHR ''}''" "digitChar d \<noteq> CHR ''-''"
proof -
  have "d mod 10 < 10" by simp
  then have "d mod 10 \<in> {0, 1, 2, 3, 4, 5, 6, 7, 8, 9 :: nat}" by (rule digit_cases)
  then show "digitChar d \<noteq> CHR '',''" "digitChar d \<noteq> CHR ''}''" "digitChar d \<noteq> CHR ''-''"
    by (auto simp: digitChar_def)
qed

lemma showNat_plain:
  "CHR '','' \<notin> set (showNat n)" "CHR ''}'' \<notin> set (showNat n)" "CHR ''-'' \<notin> set (showNat n)"
  using showNat_within [of "- {CHR '','', CHR ''}'', CHR ''-''}" n]
  by (auto simp: digitChar_symbols)

lemma showNat_injective:
  assumes "showNat a = showNat b"
  shows "a = b"
proof -
  have "Some a = parseNat (showNat a)" by (simp only: parseNat_showNat)
  also have "\<dots> = parseNat (showNat b)" by (simp only: assms)
  also have "\<dots> = Some b" by (simp only: parseNat_showNat)
  finally show ?thesis by simp
qed

lemma showInt_plain:
  "CHR '','' \<notin> set (showInt i)" "CHR ''}'' \<notin> set (showInt i)"
  by (simp_all add: showInt_def showNat_plain)

lemma showInt_injective:
  assumes "showInt a = showInt b"
  shows "a = b"
proof -
  have plain: "CHR ''-'' # cs \<noteq> showNat n" for cs n
  proof
    assume "CHR ''-'' # cs = showNat n"
    then have "CHR ''-'' \<in> set (showNat n)" by (metis list.set_intros(1))
    then show False by (simp add: showNat_plain)
  qed
  consider "a < 0" "b < 0" | "a < 0" "\<not> b < 0" | "\<not> a < 0" "b < 0" | "\<not> a < 0" "\<not> b < 0"
    by blast
  then show ?thesis
  proof cases
    case 1
    with assms have "showNat (nat (- a)) = showNat (nat (- b))" by (simp add: showInt_def)
    then have "nat (- a) = nat (- b)" by (rule showNat_injective)
    with 1 show ?thesis by simp
  next
    case 2
    with assms plain [of "showNat (nat (- a))" "nat b"] show ?thesis by (simp add: showInt_def)
  next
    case 3
    with assms plain [of "showNat (nat (- b))" "nat a"] show ?thesis by (simp add: showInt_def)
  next
    case 4
    with assms have "showNat (nat a) = showNat (nat b)" by (simp add: showInt_def)
    then have "nat a = nat b" by (rule showNat_injective)
    with 4 show ?thesis by simp
  qed
qed

lemma delimited:
  assumes "d \<notin> set x" and "d \<notin> set y" and "x @ d # r = y @ d # r'"
  shows "x = y \<and> r = r'"
  using assms
proof (induction x arbitrary: y)
  case Nil
  then show ?case by (cases y) auto
next
  case (Cons c x)
  then show ?case by (cases y) auto
qed

text \<open>
  For a given source and segment list, the text of the key determines the view mode, the
  style and the format.
\<close>

lemma showInt_eq [simp]:
  "showInt a @ CHR '','' # r = showInt b @ CHR '','' # r' \<longleftrightarrow> a = b \<and> r = r'"
  "showInt a @ CHR ''}'' # r = showInt b @ CHR ''}'' # r' \<longleftrightarrow> a = b \<and> r = r'"
proof -
  have "CHR '','' \<notin> set (showInt i)" "CHR ''}'' \<notin> set (showInt i)" for i
    by (rule showInt_plain)+
  then show "showInt a @ CHR '','' # r = showInt b @ CHR '','' # r' \<longleftrightarrow> a = b \<and> r = r'"
    "showInt a @ CHR ''}'' # r = showInt b @ CHR ''}'' # r' \<longleftrightarrow> a = b \<and> r = r'"
    using delimited [of "CHR '',''" "showInt a" "showInt b" r r']
      delimited [of "CHR ''}''" "showInt a" "showInt b" r r'] showInt_injective [of a b]
    by auto
qed

lemma stringifyStyle_eq [simp]:
  "stringifyStyle s @ r = stringifyStyle s' @ r' \<longleftrightarrow> s = s' \<and> r = r'"
  by (cases s; cases s') (auto simp: stringifyStyle_def property_def)

lemma viewModeName_eq [simp]: "viewModeName a = viewModeName b \<longleftrightarrow> a = b"
  by (cases a; cases b) simp_all

lemma formatName_eq [simp]: "formatName a = formatName b \<longleftrightarrow> a = b"
  by (cases a; cases b) simp_all




text \<open>The key of the example, as the language writes it, and the states of its export.\<close>

lemma key_text: \<open>JSON_stringify wholeSegments (currentKey ''blob:1'' loadedApp)
  = ''{"videoUrl":"blob:1","subtitles":[{"startTime":0,"endTime":2,"english":"A","chinese":"a"}],"viewMode":"dual","subStyle":{"enSize":15,"cnSize":15,"enColor":"#ffffff","cnColor":"#facc15","verticalPosition":10},"exportFormat":"mp4"}''\<close>
  by (simp add: JSON_stringify_def wholeSegments_def stringifySegment_def stringifyStyle_def
      property_def quoteJSONString_def escapeChar_def showInt_def showNat.simps digitChar_def
      currentKey_def loadedApp_def defaultStyle_def seg_def)





end
